theory Spec2Isabelle
  imports Main
begin

section \<open>The SDK avatar adaptation script\<close>

text \<open>
  A shallow embedding of \<^verbatim>\<open>scripts/avatars/sdk_avatars.py\<close>. The script runs inside
  the host modelling application; the host's scene is the state the script mutates.
  The model keeps what the script reads and writes: object names, the parent/child
  hierarchy, and the shape keys (name plus the rest of their data) of every shape-key
  datablock. Object transforms are not part of the model; what applying them does to
  the data of shape keys is a parameter of the host.

  Host collections (\<^verbatim>\<open>scene.objects\<close>, \<^verbatim>\<open>key_blocks\<close>) are lists; \<^verbatim>\<open>find\<close> returns the
  index of the first element with the given name, or \<open>-1\<close>. The host keeps names inside
  one collection pairwise different: an assignment to \<^verbatim>\<open>.name\<close> stores the name asked for
  when no other element has it, and that name with a numeric suffix otherwise. Where a
  property depends on the names being different, it has a \<open>distinct\<close> hypothesis on the
  initial scene.
\<close>

subsection \<open>The rename table (lines 17-23)\<close>

definition shapekeyMap :: "(string \<times> string) list" where
  "shapekeyMap =
    [(''sil'', ''viseme_sil''), (''PP'', ''viseme_PP''), (''FF'', ''viseme_FF''),
     (''TH'', ''viseme_TH''), (''DD'', ''viseme_DD''), (''kk'', ''viseme_kk''),
     (''CH'', ''viseme_CH''), (''SS'', ''viseme_SS''), (''nn'', ''viseme_nn''),
     (''RR'', ''viseme_RR''), (''aa'', ''viseme_aa''), (''E'', ''viseme_E''),
     (''ih'', ''viseme_I''), (''oh'', ''viseme_O''), (''ou'', ''viseme_U'')]"

subsection \<open>Scene data\<close>

text \<open>A shape key: its name and everything else it carries (value, vertex offsets, ...).\<close>

record 'd shape_key =
  key_name :: string
  key_rest :: 'd

text \<open>
  The \<^verbatim>\<open>data\<close> of an object either has a \<^verbatim>\<open>shape_keys\<close> attribute (meshes, curves,
  lattices), which is \<^verbatim>\<open>None\<close> or refers to a shape-key datablock, or has no such
  attribute (armatures, cameras, ...). Datablocks are referred to by number, so that two
  objects sharing one mesh share its shape keys.
\<close>

datatype obj_data = ShapeData "nat option" | PlainData

text \<open>
  An object: its identity, its \<^verbatim>\<open>data\<close> (\<^verbatim>\<open>None\<close> for an empty) and its children.
  The host's parenting is acyclic, so an object with its descendants is a finite tree.
\<close>

datatype object = Object (obj_id: nat) (data: "obj_data option") (children: "object list")

text \<open>
  The host state after import: the objects of the scene in collection order (every
  object of the scene is listed, roots and children alike, each with its subtree), the
  objects of the whole file, the name of each object and the key blocks of each
  shape-key datablock.
\<close>

record 'd world =
  scene_objects :: "object list"
  data_objects :: "nat list"
  obj_name :: "nat \<Rightarrow> string"
  key_blocks :: "nat \<Rightarrow> 'd shape_key list"

text \<open>
  The state of a run: the host state, the script's counter, the lines printed so far
  and, as an observation that the script itself does not keep, the log of the renames
  done at line 71 (datablock and index \<^verbatim>\<open>idx\<close> of the renamed key, in order).
\<close>

record 'd state =
  objs :: "object list"
  file_objs :: "nat list"
  names :: "nat \<Rightarrow> string"
  store :: "nat \<Rightarrow> 'd shape_key list"
  shape_keys_processed :: nat
  out :: "string list"
  renames :: "(nat \<times> nat) list"

definition init_state :: "'d world \<Rightarrow> string list \<Rightarrow> 'd state" where
  "init_state w printed =
     \<lparr>objs = scene_objects w, file_objs = data_objects w, names = obj_name w,
      store = key_blocks w, shape_keys_processed = 0, out = printed, renames = []\<rparr>"

definition world_of :: "'d state \<Rightarrow> 'd world" where
  "world_of st =
     \<lparr>scene_objects = objs st, data_objects = file_objs st, obj_name = names st,
      key_blocks = store st\<rparr>"

subsection \<open>Printed lines\<close>

text \<open>Strings are byte lists; the pictographs of the messages are their UTF-8 bytes.\<close>

definition mask_sign :: string where
  "mask_sign = [CHR 0xF0, CHR 0x9F, CHR 0x8E, CHR 0xAD]"

definition check_sign :: string where
  "check_sign = [CHR 0xE2, CHR 0x9C, CHR 0x85]"

definition cross_sign :: string where
  "cross_sign = [CHR 0xE2, CHR 0x9D, CHR 0x8C]"

definition party_sign :: string where
  "party_sign = [CHR 0xF0, CHR 0x9F, CHR 0x8E, CHR 0x89]"

text \<open>Decimal formatting of the counter, as the f-string does.\<close>

fun str_nat :: "nat \<Rightarrow> string" where
  "str_nat n =
     (if n < 10 then [char_of (48 + n)]
      else str_nat (n div 10) @ [char_of (48 + n mod 10)])"

declare str_nat.simps [simp del]

definition usage_line :: string where
  "usage_line = ''Usage: blender --background --python sdk_avatars.py -- <input_file.glb>''"

definition processing_line :: "string \<Rightarrow> string" where
  "processing_line input_file = mask_sign @ '' Processing SDK avatar: '' @ input_file"

definition imported_line :: string where
  "imported_line = check_sign @ '' Successfully imported GLB file''"

definition import_failed_line :: "string \<Rightarrow> string" where
  "import_failed_line e = cross_sign @ '' Failed to import GLB file: '' @ e"

definition root_renamed_line :: string where
  "root_renamed_line = check_sign @ '' Renamed AvatarRoot to Armature''"

definition transforms_line :: string where
  "transforms_line = check_sign @ '' Applied transforms to Armature''"

definition key_renamed_line :: "string \<Rightarrow> string \<Rightarrow> string" where
  "key_renamed_line s t = check_sign @ '' Renamed shape key: '' @ s @ '' -> '' @ t"

definition processed_line :: "nat \<Rightarrow> string" where
  "processed_line n = check_sign @ '' Processed '' @ str_nat n @ '' shape keys''"

definition exported_line :: string where
  "exported_line = check_sign @ '' Successfully exported adapted GLB file''"

definition export_failed_line :: "string \<Rightarrow> string" where
  "export_failed_line e = cross_sign @ '' Failed to export GLB file: '' @ e"

definition complete_line :: string where
  "complete_line = party_sign @ '' SDK avatar adaptation complete!''"

subsection \<open>Host collection lookup\<close>

text \<open>\<^verbatim>\<open>collection.find(name)\<close>: the index of the first element of that name, else \<open>-1\<close>.\<close>

fun find_name :: "string \<Rightarrow> string list \<Rightarrow> int" where
  "find_name s [] = - 1"
| "find_name s (n # ns) =
     (if n = s then 0
      else (let r = find_name s ns in if r = - 1 then - 1 else r + 1))"

subsection \<open>Host naming\<close>

text \<open>
  The host's rule for a name assigned to an element of a collection, \<open>used\<close> being the
  names of the other elements: the name itself when it is free, else the name followed
  by a dot and the first free number \<^verbatim>\<open>001\<close>, \<^verbatim>\<open>002\<close>, ... (at least three digits). The
  host also splits off a numeric suffix the assigned name already carries; the names the
  script assigns (the targets of the table and \<^verbatim>\<open>Armature\<close>) carry none. The search
  is bounded by the number of names in use, which is enough (\<open>unique_name_fresh\<close>).
\<close>

definition pad3 :: "nat \<Rightarrow> string" where
  "pad3 n = replicate (3 - length (str_nat n)) CHR ''0'' @ str_nat n"

definition numbered :: "string \<Rightarrow> nat \<Rightarrow> string" where
  "numbered n i = n @ ''.'' @ pad3 i"

fun first_free :: "nat \<Rightarrow> nat \<Rightarrow> string list \<Rightarrow> string \<Rightarrow> string" where
  "first_free 0 i used n = n"
| "first_free (Suc fuel) i used n =
     (if numbered n i \<notin> set used then numbered n i else first_free fuel (Suc i) used n)"

definition unique_name :: "string list \<Rightarrow> string \<Rightarrow> string" where
  "unique_name used n =
     (if n \<notin> set used then n else first_free (Suc (length used)) 1 used n)"

text \<open>The elements of a list other than the one at \<open>idx\<close>.\<close>

definition others :: "nat \<Rightarrow> 'a list \<Rightarrow> 'a list" where
  "others idx xs = take idx xs @ drop (Suc idx) xs"

text \<open>\<^verbatim>\<open>keys[idx].name = v\<close> for a key of a key-block collection.\<close>

definition set_key_name :: "nat \<Rightarrow> string \<Rightarrow> 'd shape_key list \<Rightarrow> 'd shape_key list" where
  "set_key_name idx v keys =
     keys[idx := (keys ! idx)\<lparr>key_name := unique_name (others idx (map key_name keys)) v\<rparr>]"

text \<open>
  \<^verbatim>\<open>x.name = v\<close> for the object \<open>i\<close>; object names are unique among the objects of the
  file.
\<close>

definition set_obj_name :: "nat \<Rightarrow> string \<Rightarrow> nat list \<Rightarrow> (nat \<Rightarrow> string) \<Rightarrow> (nat \<Rightarrow> string)" where
  "set_obj_name i v ids nm = nm(i := unique_name (map nm (filter (\<lambda>j. j \<noteq> i) ids)) v)"

subsection \<open>Traversal and shape-key test (lines 26-34)\<close>

text \<open>
  \<^verbatim>\<open>traverse\<close> yields the object, then the traversal of each child in order. Every
  object has the \<^verbatim>\<open>children\<close> attribute, so the \<^verbatim>\<open>hasattr\<close> test of line 28 holds.
\<close>

fun traverse :: "object \<Rightarrow> object list" where
  "traverse (Object i d cs) = Object i d cs # concat (map traverse cs)"

text \<open>
  \<^verbatim>\<open>x.data.shape_keys\<close> where the three \<^verbatim>\<open>hasattr\<close> tests of \<^verbatim>\<open>hasShapekeys\<close> succeed:
  \<^verbatim>\<open>None\<close> has neither \<^verbatim>\<open>shape_keys\<close> nor \<^verbatim>\<open>key_blocks\<close>.
\<close>

fun shape_keys_of :: "object \<Rightarrow> nat option" where
  "shape_keys_of (Object i None cs) = None"
| "shape_keys_of (Object i (Some PlainData) cs) = None"
| "shape_keys_of (Object i (Some (ShapeData None)) cs) = None"
| "shape_keys_of (Object i (Some (ShapeData (Some k))) cs) = Some k"

definition hasShapekeys :: "object \<Rightarrow> bool" where
  "hasShapekeys x = (shape_keys_of x \<noteq> None)"

text \<open>
  \<open>in_subtree x r\<close>: the object \<open>x\<close> is \<open>r\<close> or a descendant of \<open>r\<close>, said without
  \<open>traverse\<close>.
\<close>

inductive in_subtree :: "object \<Rightarrow> object \<Rightarrow> bool" where
  self: "in_subtree x x"
| below: "c \<in> set (children r) \<Longrightarrow> in_subtree x c \<Longrightarrow> in_subtree x r"

code_pred in_subtree .

subsection \<open>Renaming the avatar root (lines 49-52)\<close>

definition rename_root :: "'d state \<Rightarrow> 'd state" where
  "rename_root st =
     (let idx = find_name ''AvatarRoot'' (map (\<lambda>x. names st (obj_id x)) (objs st)) in
      if idx \<noteq> - 1
      then st\<lparr>names := set_obj_name (obj_id (objs st ! nat idx)) ''Armature''
                          (file_objs st) (names st),
              out := out st @ [root_renamed_line]\<rparr>
      else st)"

subsection \<open>Exceptions and the host operators\<close>

datatype exn = ValueError | RuntimeError string

text \<open>
  The host operators whose outcome the script depends on. Import yields the scene (after
  the scene has been cleared) or raises with a message; export succeeds or raises with a
  message. The host calls of lines 57-59 (making the armature active, selecting it and
  applying the transforms of the selection) raise with a message or return; when they
  return, the transforms are baked into the data of the shape keys: for each datablock
  \<open>k\<close> a function on the data of its keys. Names and the hierarchy are not theirs to
  change.
\<close>

record 'd host =
  import_gltf :: "string \<Rightarrow> string + 'd world"
  transform_apply :: "'d world \<Rightarrow> nat \<Rightarrow> string + (nat \<Rightarrow> 'd \<Rightarrow> 'd)"
  export_gltf :: "string \<Rightarrow> 'd world \<Rightarrow> string option"

subsection \<open>Applying transforms (lines 55-60)\<close>

text \<open>
  \<^verbatim>\<open>bpy.data.objects.get("Armature")\<close> looks the name up among the objects of the file.
  The step returns the state it reaches and the exception that left it, if any; an
  exception of lines 57-59 is not caught by the script.
\<close>

definition bake :: "('d \<Rightarrow> 'd) \<Rightarrow> 'd shape_key list \<Rightarrow> 'd shape_key list" where
  "bake f keys = map (\<lambda>key. key\<lparr>key_rest := f (key_rest key)\<rparr>) keys"

definition apply_transforms :: "'d host \<Rightarrow> 'd state \<Rightarrow> 'd state \<times> exn option" where
  "apply_transforms h st =
     (case List.find (\<lambda>i. names st i = ''Armature'') (file_objs st) of
        None \<Rightarrow> (st, None)
      | Some armature \<Rightarrow>
          (case transform_apply h (world_of st) armature of
             Inl e \<Rightarrow> (st, Some (RuntimeError e))
           | Inr f \<Rightarrow>
               (st\<lparr>store := (\<lambda>k. bake (f k) (store st k)),
                   out := out st @ [transforms_line]\<rparr>, None)))"

subsection \<open>Renaming shape keys (lines 63-75)\<close>

text \<open>The loop over the table for the key blocks of datablock \<open>k\<close> (lines 68-73).\<close>

fun rename_loop :: "(string \<times> string) list \<Rightarrow> nat \<Rightarrow> 'd state \<Rightarrow> 'd state" where
  "rename_loop [] k st = st"
| "rename_loop (m # ms) k st =
     (let keys = store st k;
          idx = find_name (fst m) (map key_name keys) in
      if idx \<noteq> - 1
      then rename_loop ms k
             (st\<lparr>store := (store st)(k := set_key_name (nat idx) (snd m) keys),
                 shape_keys_processed := shape_keys_processed st + 1,
                 out := out st @ [key_renamed_line (fst m) (snd m)],
                 renames := renames st @ [(k, nat idx)]\<rparr>)
      else rename_loop ms k st)"

text \<open>The body of the inner loop for one visited object (lines 66-73).\<close>

definition visit_object :: "object \<Rightarrow> 'd state \<Rightarrow> 'd state" where
  "visit_object x st =
     (if hasShapekeys x
      then (case shape_keys_of x of
              Some k \<Rightarrow> rename_loop shapekeyMap k st
            | None \<Rightarrow> st)
      else st)"

text \<open>The inner loop over a traversal (line 65) and the outer loop over the scene (line 64).\<close>

fun visit_all :: "object list \<Rightarrow> 'd state \<Rightarrow> 'd state" where
  "visit_all [] st = st"
| "visit_all (x # xs) st = visit_all xs (visit_object x st)"

fun scene_loop :: "object list \<Rightarrow> 'd state \<Rightarrow> 'd state" where
  "scene_loop [] st = st"
| "scene_loop (r # rs) st = scene_loop rs (visit_all (traverse r) st)"

definition rename_shape_keys :: "'d state \<Rightarrow> 'd state" where
  "rename_shape_keys st =
     (let st1 = scene_loop (objs st) (st\<lparr>shape_keys_processed := 0\<rparr>) in
      st1\<lparr>out := out st1 @ [processed_line (shape_keys_processed st1)]\<rparr>)"

text \<open>The objects visited by the two nested loops, in order, with repetitions.\<close>

definition visit_order :: "object list \<Rightarrow> object list" where
  "visit_order rs = concat (map traverse rs)"

subsection \<open>The steps between import and export (lines 49-75)\<close>

text \<open>The state reached, and the exception that ended the steps early, if any.\<close>

definition process :: "'d host \<Rightarrow> 'd state \<Rightarrow> 'd state \<times> exn option" where
  "process h st =
     (case apply_transforms h (rename_root st) of
        (st1, Some e) \<Rightarrow> (st1, Some e)
      | (st1, None) \<Rightarrow> (rename_shape_keys st1, None))"

subsection \<open>The whole script\<close>

text \<open>
  How a run ends: the script reaches its last line, it calls \<^verbatim>\<open>sys.exit\<close> with a
  status, or an exception leaves the script uncaught.
\<close>

datatype outcome = Completed | SysExit int | Uncaught exn

text \<open>\<^verbatim>\<open>list.index\<close> raises \<^verbatim>\<open>ValueError\<close> when the element is absent.\<close>

fun py_index :: "string \<Rightarrow> string list \<Rightarrow> exn + nat" where
  "py_index x [] = Inl ValueError"
| "py_index x (y # ys) =
     (if y = x then Inr 0
      else (case py_index x ys of Inl e \<Rightarrow> Inl e | Inr i \<Rightarrow> Inr (i + 1)))"

definition main :: "'d host \<Rightarrow> string list \<Rightarrow> string list \<times> outcome" where
  "main h sys_argv =
     (case py_index ''--'' sys_argv of
        Inl e \<Rightarrow> ([], Uncaught e)
      | Inr i \<Rightarrow>
          (let argv = drop (i + 1) sys_argv in
           if length argv < 1 then ([usage_line], SysExit 1)
           else
             (let input_file = hd argv;
                  printed = [processing_line input_file] in
              case import_gltf h input_file of
                Inl e \<Rightarrow> (printed @ [import_failed_line e], SysExit 1)
              | Inr w \<Rightarrow>
                  (case process h (init_state w (printed @ [imported_line])) of
                     (st, Some e) \<Rightarrow> (out st, Uncaught e)
                   | (st, None) \<Rightarrow>
                       (case export_gltf h input_file (world_of st) of
                          Some e \<Rightarrow> (out st @ [export_failed_line e], SysExit 1)
                        | None \<Rightarrow> (out st @ [exported_line, complete_line], Completed))))))"

subsection \<open>The pass on lists\<close>

text \<open>
  Proof devices: the table loop on the name list alone, on the key blocks alone, and the
  number of times its test \<^verbatim>\<open>idx != -1\<close> succeeds. The lemmas below connect them to
  \<open>rename_loop\<close>.
\<close>

fun rename_names :: "(string \<times> string) list \<Rightarrow> string list \<Rightarrow> string list" where
  "rename_names [] ns = ns"
| "rename_names (m # ms) ns =
     (let idx = find_name (fst m) ns in
      if idx \<noteq> - 1
      then rename_names ms (ns[nat idx := unique_name (others (nat idx) ns) (snd m)])
      else rename_names ms ns)"

fun rename_list :: "(string \<times> string) list \<Rightarrow> 'd shape_key list \<Rightarrow> 'd shape_key list" where
  "rename_list [] keys = keys"
| "rename_list (m # ms) keys =
     (let idx = find_name (fst m) (map key_name keys) in
      if idx \<noteq> - 1 then rename_list ms (set_key_name (nat idx) (snd m) keys)
      else rename_list ms keys)"

fun rename_hits :: "(string \<times> string) list \<Rightarrow> string list \<Rightarrow> nat" where
  "rename_hits [] ns = 0"
| "rename_hits (m # ms) ns =
     (let idx = find_name (fst m) ns in
      if idx \<noteq> - 1
      then rename_hits ms (ns[nat idx := unique_name (others (nat idx) ns) (snd m)]) + 1
      else rename_hits ms ns)"

text \<open>
  The invariant of the rename log: logged keys are different, counted, and carry names
  that are not source names.
\<close>

definition logged :: "'d state \<Rightarrow> bool" where
  "logged st \<longleftrightarrow>
     distinct (renames st) \<and> length (renames st) = shape_keys_processed st \<and>
     (\<forall>(k, i) \<in> set (renames st).
        i < length (store st k) \<and> key_name (store st k ! i) \<notin> fst ` set shapekeyMap)"

subsection \<open>A pass that visits a given list of objects\<close>

text \<open>
  The rename pass with the two nested loops replaced by one loop over \<open>once\<close>; with a
  list holding every visited object exactly once it is the pass the nested loops are
  compared with.
\<close>

definition rename_each_once :: "object list \<Rightarrow> 'd state \<Rightarrow> 'd state" where
  "rename_each_once once st =
     (let st1 = visit_all once (st\<lparr>shape_keys_processed := 0\<rparr>) in
      st1\<lparr>out := out st1 @ [processed_line (shape_keys_processed st1)]\<rparr>)"

subsection \<open>Example scenes\<close>

text \<open>
  A root named \<^verbatim>\<open>AvatarRoot\<close>, an empty below it and a mesh below the empty, all three
  listed in the scene, so the mesh is visited three times: below the root, below the
  empty and on its own. The data of a shape key is a number.
\<close>

definition face :: object where
  "face = Object 3 (Some (ShapeData (Some 0))) []"

definition head :: object where
  "head = Object 2 None [face]"

definition avatar_root :: object where
  "avatar_root = Object 1 (Some PlainData) [head]"

definition demo_world :: "nat world" where
  "demo_world =
     \<lparr>scene_objects = [avatar_root, head, face],
      data_objects = [1, 2, 3],
      obj_name = (\<lambda>i. if i = 1 then ''AvatarRoot'' else if i = 2 then ''Head''
                     else if i = 3 then ''Face'' else []),
      key_blocks = (\<lambda>k. if k = 0
                         then [\<lparr>key_name = ''Basis'', key_rest = 10\<rparr>,
                               \<lparr>key_name = ''aa'', key_rest = 11\<rparr>,
                               \<lparr>key_name = ''ou'', key_rest = 12\<rparr>]
                         else [])\<rparr>"

definition demo_state :: "nat state" where
  "demo_state = init_state demo_world []"

text \<open>A scene with no source name and no \<^verbatim>\<open>AvatarRoot\<close>.\<close>

definition plain_world :: "nat world" where
  "plain_world =
     \<lparr>scene_objects = [avatar_root, head, face],
      data_objects = [1, 2, 3],
      obj_name = (\<lambda>i. if i = 1 then ''Armature'' else if i = 2 then ''Head''
                     else if i = 3 then ''Face'' else []),
      key_blocks = (\<lambda>k. if k = 0
                         then [\<lparr>key_name = ''Basis'', key_rest = 10\<rparr>,
                               \<lparr>key_name = ''viseme_aa'', key_rest = 11\<rparr>,
                               \<lparr>key_name = ''Smile'', key_rest = 12\<rparr>]
                         else [])\<rparr>"

definition plain_state :: "nat state" where
  "plain_state = init_state plain_world []"

text \<open>
  A scene in which the names the script assigns are already in use: an object named
  \<^verbatim>\<open>Armature\<close> beside \<^verbatim>\<open>AvatarRoot\<close>, and a key named \<^verbatim>\<open>viseme_aa\<close> beside \<^verbatim>\<open>aa\<close>.
\<close>

definition rig :: object where
  "rig = Object 4 (Some PlainData) []"

definition clash_world :: "nat world" where
  "clash_world =
     \<lparr>scene_objects = [avatar_root, head, face, rig],
      data_objects = [1, 2, 3, 4],
      obj_name = (\<lambda>i. if i = 1 then ''AvatarRoot'' else if i = 2 then ''Head''
                     else if i = 3 then ''Face'' else if i = 4 then ''Armature'' else []),
      key_blocks = (\<lambda>k. if k = 0
                         then [\<lparr>key_name = ''Basis'', key_rest = 10\<rparr>,
                               \<lparr>key_name = ''viseme_aa'', key_rest = 11\<rparr>,
                               \<lparr>key_name = ''aa'', key_rest = 12\<rparr>,
                               \<lparr>key_name = ''Smile'', key_rest = 13\<rparr>]
                         else [])\<rparr>"

definition clash_state :: "nat state" where
  "clash_state = init_state clash_world []"

text \<open>
  A host whose import yields the first example scene, whose transform step adds one to
  the data of every shape key, and whose export succeeds; and one whose transform step
  raises.
\<close>

definition demo_host :: "nat host" where
  "demo_host =
     \<lparr>import_gltf = (\<lambda>f. Inr demo_world),
      transform_apply = (\<lambda>w a. Inr (\<lambda>k d. d + 1)),
      export_gltf = (\<lambda>f w. None)\<rparr>"

definition failing_host :: "nat host" where
  "failing_host =
     \<lparr>import_gltf = (\<lambda>f. Inr demo_world),
      transform_apply = (\<lambda>w a. Inl ''no active object''),
      export_gltf = (\<lambda>f w. None)\<rparr>"

section \<open>Host naming\<close>

lemma unique_name_free: "n \<notin> set used \<Longrightarrow> unique_name used n = n"
  by (simp add: unique_name_def)

lemma first_free_form:
  "first_free fuel i used n = n \<or> (\<exists>j. first_free fuel i used n = numbered n j)"
  by (induction fuel arbitrary: i) auto

lemma unique_name_form:
  "unique_name used n = n \<or> (\<exists>j. unique_name used n = numbered n j)"
  using first_free_form[of "Suc (length used)" 1 used n] by (auto simp: unique_name_def)

lemma numbered_dot: "CHR ''.'' \<in> set (numbered n i)"
  by (simp add: numbered_def)

lemma unique_name_dot: "unique_name used n = n \<or> CHR ''.'' \<in> set (unique_name used n)"
  using unique_name_form[of used n] numbered_dot by auto

text \<open>
  The numbered candidates are pairwise different: the digits written by \<open>pad3\<close> give
  the number back. So among one more candidate than there are names in use, one is free.
\<close>

lemma digit_value: "d < 10 \<Longrightarrow> of_char (char_of (48 + d :: nat)) = (48 + d :: nat)"
  by simp

lemma str_nat_value: "foldl (\<lambda>a c. 10 * a + (of_char c - 48)) (0::nat) (str_nat n) = n"
proof (induction n rule: str_nat.induct)
  case (1 n)
  show ?case
  proof (cases "n < 10")
    case True
    then show ?thesis by (subst str_nat.simps) (simp add: digit_value)
  next
    case False
    have "n mod 10 < 10" by simp
    then have d: "of_char (char_of (48 + n mod 10)) = (48 + n mod 10 :: nat)" by (rule digit_value)
    show ?thesis
      using False "1.IH" by (subst str_nat.simps) (simp add: d)
  qed
qed

lemma zeros_value:
  "foldl (\<lambda>a c. 10 * a + (of_char c - 48)) (0::nat) (replicate k CHR ''0'' @ s)
   = foldl (\<lambda>a c. 10 * a + (of_char c - 48)) 0 s"
  by (induction k) simp_all

lemma pad3_value: "foldl (\<lambda>a c. 10 * a + (of_char c - 48)) (0::nat) (pad3 n) = n"
  by (simp only: pad3_def zeros_value str_nat_value)

lemma pad3_inj:
  assumes "pad3 i = pad3 j"
  shows "i = j"
proof -
  have "i = foldl (\<lambda>a c. 10 * a + (of_char c - 48)) (0::nat) (pad3 i)"
    by (simp only: pad3_value)
  also have "\<dots> = foldl (\<lambda>a c. 10 * a + (of_char c - 48)) (0::nat) (pad3 j)"
    by (simp only: assms)
  also have "\<dots> = j" by (simp only: pad3_value)
  finally show ?thesis .
qed

lemma numbered_inj: "numbered n i = numbered n j \<Longrightarrow> i = j"
  by (auto simp: numbered_def dest: pad3_inj)

lemma finite_numbered_used: "finite {j. numbered n j \<in> set used}"
proof -
  have "inj (numbered n)" by (auto simp: inj_on_def dest: numbered_inj)
  then have "finite (numbered n -` set used)" by (simp add: finite_vimageI)
  then show ?thesis by (simp add: vimage_def)
qed

lemma card_numbered_used: "card {j. numbered n j \<in> set used} \<le> length used"
proof -
  have "inj_on (numbered n) {j. numbered n j \<in> set used}"
    by (auto simp: inj_on_def dest: numbered_inj)
  moreover have "numbered n ` {j. numbered n j \<in> set used} \<subseteq> set used" by auto
  ultimately have "card {j. numbered n j \<in> set used} \<le> card (set used)"
    by (rule card_inj_on_le) simp
  also have "\<dots> \<le> length used" by (rule card_length)
  finally show ?thesis .
qed

lemma first_free_fresh:
  assumes "card {j. i \<le> j \<and> numbered n j \<in> set used} < fuel"
  shows "first_free fuel i used n \<notin> set used"
  using assms
proof (induction fuel arbitrary: i)
  case 0
  then show ?case by simp
next
  case (Suc fuel)
  show ?case
  proof (cases "numbered n i \<in> set used")
    case False
    then show ?thesis by simp
  next
    case True
    let ?A = "{j. i \<le> j \<and> numbered n j \<in> set used}"
    have fin: "finite ?A" using finite_numbered_used[of n used] by simp
    have "{j. Suc i \<le> j \<and> numbered n j \<in> set used} = ?A - {i}" by auto
    moreover have "i \<in> ?A" using True by simp
    ultimately have "card {j. Suc i \<le> j \<and> numbered n j \<in> set used} = card ?A - 1"
      using fin by simp
    moreover have "0 < card ?A" using fin \<open>i \<in> ?A\<close> by (auto simp: card_gt_0_iff)
    ultimately have "card {j. Suc i \<le> j \<and> numbered n j \<in> set used} < fuel"
      using Suc.prems by simp
    from Suc.IH[OF this] True show ?thesis by simp
  qed
qed

lemma unique_name_fresh: "unique_name used n \<notin> set used"
proof (cases "n \<in> set used")
  case False
  then show ?thesis by (simp add: unique_name_def)
next
  case True
  have "{j. 1 \<le> j \<and> numbered n j \<in> set used} \<subseteq> {j. numbered n j \<in> set used}" by auto
  then have "card {j. 1 \<le> j \<and> numbered n j \<in> set used} \<le> card {j. numbered n j \<in> set used}"
    by (rule card_mono[OF finite_numbered_used])
  with card_numbered_used[of n used]
  have "card {j. 1 \<le> j \<and> numbered n j \<in> set used} < Suc (length used)" by simp
  from first_free_fresh[OF this] True show ?thesis by (simp add: unique_name_def)
qed

text \<open>The first suffixes, for running the examples.\<close>

lemma digit_chars:
  "char_of (48::nat) = CHR ''0''" "char_of (49::nat) = CHR ''1''" "char_of (50::nat) = CHR ''2''"
  "char_of (51::nat) = CHR ''3''"
  by (simp_all add: char_of_def bit_0)

lemma str_nat_1: "str_nat (Suc 0) = ''1''"
  by (subst str_nat.simps) (simp add: digit_chars)

lemma str_nat_2: "str_nat (Suc (Suc 0)) = ''2''"
  by (subst str_nat.simps) (simp add: digit_chars)

lemma pad3_small:
  "pad3 (Suc 0) = ''001''" "pad3 (Suc (Suc 0)) = ''002''"
  by (simp_all add: pad3_def str_nat_1 str_nat_2 numeral_3_eq_3)

section \<open>Lookup and the loop on names\<close>

lemma find_name_ge: "- 1 \<le> find_name s ns"
  by (induction ns) (auto simp: Let_def)

lemma find_name_absent: "find_name s ns = - 1 \<longleftrightarrow> s \<notin> set ns"
proof (induction ns)
  case Nil
  show ?case by simp
next
  case (Cons n ns)
  have "- 1 \<le> find_name s ns" by (rule find_name_ge)
  with Cons show ?case by (auto simp: Let_def)
qed

lemma find_name_eq:
  "find_name s ns = int i \<longleftrightarrow> i < length ns \<and> ns ! i = s \<and> (\<forall>j<i. ns ! j \<noteq> s)"
proof (induction ns arbitrary: i)
  case Nil
  show ?case by simp
next
  case (Cons n ns)
  have ge: "- 1 \<le> find_name s ns" by (rule find_name_ge)
  show ?case
  proof (cases "n = s")
    case True
    then show ?thesis by (cases i) auto
  next
    case False
    show ?thesis
    proof (cases i)
      case 0
      with False ge show ?thesis by (auto simp: Let_def)
    next
      case (Suc i')
      have "find_name s (n # ns) = int (Suc i') \<longleftrightarrow> find_name s ns = int i'"
        using False ge by (auto simp: Let_def)
      also have "\<dots> \<longleftrightarrow> i' < length ns \<and> ns ! i' = s \<and> (\<forall>j<i'. ns ! j \<noteq> s)"
        by (rule Cons.IH)
      also have "\<dots> \<longleftrightarrow> Suc i' < length (n # ns) \<and> (n # ns) ! Suc i' = s
                     \<and> (\<forall>j<Suc i'. (n # ns) ! j \<noteq> s)"
        using False by (auto simp: less_Suc_eq_0_disj)
      finally show ?thesis using Suc by simp
    qed
  qed
qed

lemma find_name_hit:
  assumes "find_name s ns \<noteq> - 1"
  shows "nat (find_name s ns) < length ns \<and> ns ! nat (find_name s ns) = s
         \<and> (\<forall>j<nat (find_name s ns). ns ! j \<noteq> s)"
proof -
  have "- 1 \<le> find_name s ns" by (rule find_name_ge)
  with assms have "find_name s ns = int (nat (find_name s ns))" by simp
  then show ?thesis by (rule find_name_eq[THEN iffD1])
qed

lemma length_rename_names: "length (rename_names tbl ns) = length ns"
  by (induction tbl arbitrary: ns) (auto simp: Let_def)

lemma set_others: "set (others idx xs) \<subseteq> set xs"
  by (auto simp: others_def dest: in_set_takeD in_set_dropD)

lemma rename_names_keep:
  assumes "i < length ns" "ns ! i \<notin> fst ` set tbl"
  shows "rename_names tbl ns ! i = ns ! i"
  using assms
proof (induction tbl arbitrary: ns)
  case Nil
  show ?case by simp
next
  case (Cons m ms)
  have not_m: "ns ! i \<noteq> fst m" and not_ms: "ns ! i \<notin> fst ` set ms"
    using Cons.prems(2) by auto
  show ?case
  proof (cases "find_name (fst m) ns = - 1")
    case True
    then show ?thesis using Cons.IH[OF Cons.prems(1) not_ms] by simp
  next
    case False
    let ?idx = "nat (find_name (fst m) ns)"
    let ?ns1 = "ns[?idx := unique_name (others ?idx ns) (snd m)]"
    from find_name_hit[OF False] have "ns ! ?idx = fst m" by simp
    with not_m have ne: "i \<noteq> ?idx" by auto
    then have at_i: "?ns1 ! i = ns ! i" by simp
    have "rename_names ms ?ns1 ! i = ?ns1 ! i"
      by (rule Cons.IH) (use Cons.prems(1) at_i not_ms in simp_all)
    then show ?thesis using False at_i by (simp add: Let_def)
  qed
qed

lemma rename_names_step:
  assumes "\<forall>t\<in>snd ` set tbl. \<forall>used. unique_name used t \<notin> S" "i < length ns"
  shows "rename_names tbl ns ! i = ns ! i \<or> rename_names tbl ns ! i \<notin> S"
  using assms
proof (induction tbl arbitrary: ns)
  case Nil
  show ?case by simp
next
  case (Cons m ms)
  have A: "\<forall>t\<in>snd ` set ms. \<forall>used. unique_name used t \<notin> S"
    using Cons.prems(1) by simp
  show ?case
  proof (cases "find_name (fst m) ns = - 1")
    case True
    then show ?thesis using Cons.IH[OF A Cons.prems(2)] by simp
  next
    case False
    let ?idx = "nat (find_name (fst m) ns)"
    let ?r = "unique_name (others ?idx ns) (snd m)"
    let ?ns1 = "ns[?idx := ?r]"
    have r: "?r \<notin> S" using Cons.prems(1) by simp
    have res: "rename_names (m # ms) ns = rename_names ms ?ns1"
      using False by (simp add: Let_def)
    have len: "i < length ?ns1" using Cons.prems(2) by simp
    from Cons.IH[OF A len]
    have ih: "rename_names ms ?ns1 ! i = ?ns1 ! i \<or> rename_names ms ?ns1 ! i \<notin> S" .
    show ?thesis
    proof (cases "i = ?idx")
      case True
      then have "?ns1 ! i = ?r" using Cons.prems(2) by simp
      with ih r have "rename_names ms ?ns1 ! i \<notin> S" by auto
      with res show ?thesis by simp
    next
      case False
      then have "?ns1 ! i = ns ! i" by simp
      with ih res show ?thesis by simp
    qed
  qed
qed

lemma rename_names_first:
  assumes "distinct (map fst tbl)" "fst ` set tbl \<subseteq> S"
    "\<forall>t\<in>snd ` set tbl. \<forall>used. unique_name used t \<notin> S"
    "i < length ns" "ns ! i \<in> fst ` set tbl" "\<forall>j<i. ns ! j \<noteq> ns ! i"
  shows "rename_names tbl ns ! i \<notin> S"
  using assms
proof (induction tbl arbitrary: ns)
  case Nil
  then show ?case by simp
next
  case (Cons m ms)
  have dist: "distinct (map fst ms)" using Cons.prems(1) by simp
  have sub: "fst ` set ms \<subseteq> S" using Cons.prems(2) by auto
  have A: "\<forall>t\<in>snd ` set ms. \<forall>used. unique_name used t \<notin> S"
    using Cons.prems(3) by simp
  have in_S: "ns ! i \<in> S" using Cons.prems(2,5) by auto
  show ?case
  proof (cases "find_name (fst m) ns = - 1")
    case True
    then have "fst m \<notin> set ns" by (simp add: find_name_absent)
    then have "ns ! i \<noteq> fst m" using nth_mem[OF Cons.prems(4)] by auto
    with Cons.prems(5) have in_ms: "ns ! i \<in> fst ` set ms" by auto
    from Cons.IH[OF dist sub A Cons.prems(4) in_ms Cons.prems(6)] True
    show ?thesis by simp
  next
    case False
    let ?idx = "nat (find_name (fst m) ns)"
    let ?r = "unique_name (others ?idx ns) (snd m)"
    let ?ns1 = "ns[?idx := ?r]"
    from find_name_hit[OF False] have idx: "?idx < length ns" "ns ! ?idx = fst m"
      "\<forall>j<?idx. ns ! j \<noteq> fst m" by auto
    have r: "?r \<notin> S" using Cons.prems(3) by simp
    have res: "rename_names (m # ms) ns = rename_names ms ?ns1"
      using False by (simp add: Let_def)
    have len: "i < length ?ns1" using Cons.prems(4) by simp
    show ?thesis
    proof (cases "ns ! i = fst m")
      case True
      have "?idx = i"
      proof (rule ccontr)
        assume "?idx \<noteq> i"
        then consider "?idx < i" | "i < ?idx" by linarith
        then show False
        proof cases
          case 1
          with Cons.prems(6) idx(2) True show False by auto
        next
          case 2
          with idx(3) True show False by auto
        qed
      qed
      then have "?ns1 ! i = ?r" using Cons.prems(4) by simp
      with rename_names_step[OF A len] r have "rename_names ms ?ns1 ! i \<notin> S" by auto
      with res show ?thesis by simp
    next
      case nm: False
      with Cons.prems(5) have in_ms: "ns ! i \<in> fst ` set ms" by auto
      have ne: "i \<noteq> ?idx" using nm idx(2) by auto
      then have at_i: "?ns1 ! i = ns ! i" by simp
      have r_ne: "?r \<noteq> ns ! i" using r in_S by auto
      have first: "\<forall>j<i. ?ns1 ! j \<noteq> ?ns1 ! i"
      proof (intro allI impI)
        fix j assume "j < i"
        then show "?ns1 ! j \<noteq> ?ns1 ! i"
          using Cons.prems(4,6) r_ne at_i by (cases "j = ?idx") auto
      qed
      have "rename_names ms ?ns1 ! i \<notin> S"
        using Cons.IH[OF dist sub A len, unfolded at_i, OF in_ms] first at_i by simp
      with res show ?thesis by simp
    qed
  qed
qed

lemma rename_names_no_source:
  assumes "set ns \<inter> fst ` set tbl = {}"
  shows "rename_names tbl ns = ns \<and> rename_hits tbl ns = 0"
  using assms
proof (induction tbl)
  case Nil
  show ?case by simp
next
  case (Cons m ms)
  have "fst m \<notin> set ns" using Cons.prems by auto
  then have "find_name (fst m) ns = - 1" by (simp add: find_name_absent)
  moreover have "set ns \<inter> fst ` set ms = {}" using Cons.prems by auto
  ultimately show ?case using Cons.IH by simp
qed

lemma rename_names_sources_gone:
  assumes "distinct (map fst tbl)" "fst ` set tbl \<subseteq> S"
    "\<forall>t\<in>snd ` set tbl. \<forall>used. unique_name used t \<notin> S" "distinct ns"
  shows "set (rename_names tbl ns) \<inter> fst ` set tbl = {}"
proof -
  have "x \<notin> fst ` set tbl" if "x \<in> set (rename_names tbl ns)" for x
  proof -
    from that obtain i where i: "i < length ns" "rename_names tbl ns ! i = x"
      by (auto simp: in_set_conv_nth length_rename_names)
    have first: "\<forall>j<i. ns ! j \<noteq> ns ! i"
      using assms(4) i(1) by (auto simp: distinct_conv_nth)
    show ?thesis
    proof (cases "ns ! i \<in> fst ` set tbl")
      case True
      from rename_names_first[OF assms(1,2,3) i(1) True first] i(2) assms(2)
      show ?thesis by auto
    next
      case False
      from rename_names_keep[OF i(1) False] False i(2) show ?thesis by simp
    qed
  qed
  then show ?thesis by auto
qed

lemma rename_names_exact:
  assumes "distinct (map fst tbl)" "distinct (map snd tbl)" "fst ` set tbl \<subseteq> S"
    "\<forall>t\<in>snd ` set tbl. \<forall>used. unique_name used t \<notin> S"
    "\<forall>t'\<in>snd ` set tbl. t' \<noteq> t \<longrightarrow> (\<forall>used. unique_name used t' \<noteq> t)"
    "i < length ns" "(ns ! i, t) \<in> set tbl" "\<forall>j<i. ns ! j \<noteq> ns ! i" "t \<notin> set ns"
  shows "rename_names tbl ns ! i = t"
  using assms
proof (induction tbl arbitrary: ns)
  case Nil
  then show ?case by simp
next
  case (Cons m ms)
  obtain s0 t0 where m: "m = (s0, t0)" by (cases m)
  have dist: "distinct (map fst ms)" and s0_fresh: "s0 \<notin> fst ` set ms"
    using Cons.prems(1) m by auto
  have distt: "distinct (map snd ms)" and t0_fresh: "t0 \<notin> snd ` set ms"
    using Cons.prems(2) m by auto
  have sub: "fst ` set ms \<subseteq> S" using Cons.prems(3) by auto
  have A: "\<forall>t\<in>snd ` set ms. \<forall>used. unique_name used t \<notin> S"
    using Cons.prems(4) by simp
  have B: "\<forall>t'\<in>snd ` set ms. t' \<noteq> t \<longrightarrow> (\<forall>used. unique_name used t' \<noteq> t)"
    using Cons.prems(5) by simp
  show ?case
  proof (cases "ns ! i = s0")
    case True
    with Cons.prems(7) m s0_fresh have t: "t = t0" by force
    have "find_name s0 ns = int i"
      using True Cons.prems(6,8) by (simp add: find_name_eq)
    then have res: "rename_names (m # ms) ns
                    = rename_names ms (ns[i := unique_name (others i ns) t0])"
      using m by simp
    have "t0 \<notin> set (others i ns)" using Cons.prems(9) t set_others[of i ns] by auto
    then have u: "unique_name (others i ns) t0 = t0" by (rule unique_name_free)
    have "t0 \<notin> S" using Cons.prems(4) m u by (metis image_eqI list.set_intros(1) snd_conv)
    then have "t0 \<notin> fst ` set ms" using sub by auto
    then have "rename_names ms (ns[i := t0]) ! i = (ns[i := t0]) ! i"
      by (intro rename_names_keep) (use Cons.prems(6) in simp_all)
    with res u t Cons.prems(6) show ?thesis by simp
  next
    case False
    with Cons.prems(7) m have in_ms: "(ns ! i, t) \<in> set ms" by auto
    then have src: "ns ! i \<in> S" using sub by force
    have t_in: "t \<in> snd ` set ms" using in_ms by force
    show ?thesis
    proof (cases "find_name s0 ns = - 1")
      case True
      then have "rename_names (m # ms) ns = rename_names ms ns" using m by simp
      with Cons.IH[OF dist distt sub A B Cons.prems(6) in_ms Cons.prems(8,9)] show ?thesis by simp
    next
      case nf: False
      let ?idx = "nat (find_name s0 ns)"
      let ?r = "unique_name (others ?idx ns) t0"
      let ?ns1 = "ns[?idx := ?r]"
      from find_name_hit[OF nf] have idx: "?idx < length ns" "ns ! ?idx = s0" by auto
      have ne: "i \<noteq> ?idx" using False idx by auto
      have res: "rename_names (m # ms) ns = rename_names ms ?ns1"
        using nf m by (simp add: Let_def)
      have at_i: "?ns1 ! i = ns ! i" using ne by simp
      have r: "?r \<notin> S" using Cons.prems(4) m by simp
      have r_ne: "?r \<noteq> ns ! i" using r src by auto
      have "t0 \<noteq> t" using t_in t0_fresh by auto
      then have r_t: "?r \<noteq> t" using Cons.prems(5) m by simp
      have first: "\<forall>j<i. ?ns1 ! j \<noteq> ?ns1 ! i"
      proof (intro allI impI)
        fix j assume "j < i"
        then show "?ns1 ! j \<noteq> ?ns1 ! i"
          using Cons.prems(6,8) r_ne at_i by (cases "j = ?idx") auto
      qed
      have "set ?ns1 \<subseteq> insert ?r (set ns)" by (rule set_update_subset_insert)
      then have fresh: "t \<notin> set ?ns1" using Cons.prems(9) r_t by auto
      have len: "i < length ?ns1" using Cons.prems(6) by simp
      have in_ms1: "(?ns1 ! i, t) \<in> set ms" using in_ms at_i by simp
      have "rename_names ms ?ns1 ! i = t"
        by (rule Cons.IH[OF dist distt sub A B len in_ms1 first fresh])
      with res show ?thesis by simp
    qed
  qed
qed

section \<open>The table, the table loop and the loops over objects\<close>

lemma table_sources_distinct: "distinct (map fst shapekeyMap)"
  by (simp add: shapekeyMap_def)

lemma table_targets_distinct: "distinct (map snd shapekeyMap)"
  by (simp add: shapekeyMap_def)

lemma table_disjoint: "set (map snd shapekeyMap) \<inter> set (map fst shapekeyMap) = {}"
  by (simp add: shapekeyMap_def)

lemma table_no_dot:
  "\<forall>m\<in>set shapekeyMap. CHR ''.'' \<notin> set (fst m) \<and> CHR ''.'' \<notin> set (snd m)"
  by (simp add: shapekeyMap_def)

lemma assigned_clean:
  assumes "t \<in> snd ` set shapekeyMap"
  shows "unique_name used t \<notin> fst ` set shapekeyMap"
proof (cases "unique_name used t = t")
  case True
  with assms table_disjoint show ?thesis by auto
next
  case False
  with unique_name_dot[of used t] have "CHR ''.'' \<in> set (unique_name used t)" by simp
  with table_no_dot show ?thesis by auto
qed

lemma assigned_apart:
  assumes "t \<in> snd ` set shapekeyMap" and "t' \<noteq> t"
  shows "unique_name used t' \<noteq> t"
proof (cases "unique_name used t' = t'")
  case True
  with assms(2) show ?thesis by simp
next
  case False
  with unique_name_dot[of used t'] have "CHR ''.'' \<in> set (unique_name used t')" by simp
  moreover have "CHR ''.'' \<notin> set t" using assms(1) table_no_dot by auto
  ultimately show ?thesis by auto
qed

lemma names_set_key_name:
  "idx < length keys \<Longrightarrow>
   map key_name (set_key_name idx v keys)
   = (map key_name keys)[idx := unique_name (others idx (map key_name keys)) v]"
  by (simp add: set_key_name_def map_update)

lemma rest_set_key_name: "map key_rest (set_key_name idx v keys) = map key_rest keys"
proof (cases "idx < length keys")
  case True
  then have "(map key_rest keys)[idx := key_rest (keys ! idx)] = map key_rest keys"
    by (simp add: list_update_same_conv)
  then show ?thesis by (simp add: set_key_name_def map_update)
next
  case False
  then show ?thesis by (simp add: set_key_name_def list_update_beyond)
qed

lemma length_set_key_name: "length (set_key_name idx v keys) = length keys"
  by (simp add: set_key_name_def)

lemma rename_list_names:
  "map key_name (rename_list tbl keys) = rename_names tbl (map key_name keys)"
proof (induction tbl arbitrary: keys)
  case Nil
  show ?case by simp
next
  case (Cons m ms)
  show ?case
  proof (cases "find_name (fst m) (map key_name keys) = - 1")
    case True
    then show ?thesis using Cons.IH by simp
  next
    case False
    from find_name_hit[OF False] have "nat (find_name (fst m) (map key_name keys)) < length keys"
      by simp
    then show ?thesis using False Cons.IH by (simp add: Let_def names_set_key_name)
  qed
qed

lemma rename_list_rest: "map key_rest (rename_list tbl keys) = map key_rest keys"
  by (induction tbl arbitrary: keys) (simp_all add: Let_def rest_set_key_name)

lemma length_rename_list: "length (rename_list tbl keys) = length keys"
  using arg_cong[OF rename_list_rest, of length tbl keys] by simp

lemma rename_loop_store:
  "store (rename_loop tbl k st) = (store st)(k := rename_list tbl (store st k))"
  by (induction tbl arbitrary: st) (auto simp: Let_def)

lemma rename_loop_count:
  "shape_keys_processed (rename_loop tbl k st)
   = shape_keys_processed st + rename_hits tbl (map key_name (store st k))"
proof (induction tbl arbitrary: st)
  case Nil
  show ?case by simp
next
  case (Cons m ms)
  show ?case
  proof (cases "find_name (fst m) (map key_name (store st k)) = - 1")
    case True
    then show ?thesis using Cons.IH by simp
  next
    case False
    from find_name_hit[OF False]
    have "nat (find_name (fst m) (map key_name (store st k))) < length (store st k)"
      by simp
    then show ?thesis using False by (simp add: Let_def Cons.IH names_set_key_name)
  qed
qed

lemma rename_loop_frame:
  "objs (rename_loop tbl k st) = objs st \<and> file_objs (rename_loop tbl k st) = file_objs st
   \<and> names (rename_loop tbl k st) = names st"
  by (induction tbl arbitrary: st) (auto simp: Let_def)

lemma rename_loop_idle:
  assumes "set (map key_name (store st k)) \<inter> fst ` set tbl = {}"
  shows "rename_loop tbl k st = st"
  using assms
proof (induction tbl)
  case Nil
  show ?case by simp
next
  case (Cons m ms)
  have "fst m \<notin> set (map key_name (store st k))" using Cons.prems by auto
  then have "find_name (fst m) (map key_name (store st k)) = - 1"
    by (simp only: find_name_absent not_False_eq_True)
  moreover have "set (map key_name (store st k)) \<inter> fst ` set ms = {}" using Cons.prems by auto
  ultimately show ?case using Cons.IH by simp
qed

lemma visit_object_case:
  "visit_object x st =
     (case shape_keys_of x of None \<Rightarrow> st | Some k \<Rightarrow> rename_loop shapekeyMap k st)"
  by (simp add: visit_object_def hasShapekeys_def split: option.split)

lemma visit_all_append: "visit_all (xs @ ys) st = visit_all ys (visit_all xs st)"
  by (induction xs arbitrary: st) auto

lemma scene_loop_visit_all: "scene_loop rs st = visit_all (visit_order rs) st"
  by (induction rs arbitrary: st) (auto simp: visit_order_def visit_all_append)

lemma visit_object_frame:
  "objs (visit_object x st) = objs st \<and> file_objs (visit_object x st) = file_objs st
   \<and> names (visit_object x st) = names st"
  by (simp add: visit_object_case rename_loop_frame split: option.split)

lemma visit_all_frame:
  "objs (visit_all xs st) = objs st \<and> file_objs (visit_all xs st) = file_objs st
   \<and> names (visit_all xs st) = names st"
  by (induction xs arbitrary: st) (auto simp: visit_object_frame)

lemma visit_object_store:
  "store (visit_object x st) =
     (case shape_keys_of x of None \<Rightarrow> store st
      | Some k \<Rightarrow> (store st)(k := rename_list shapekeyMap (store st k)))"
  by (simp add: visit_object_case rename_loop_store split: option.split)

lemma rename_list_idle:
  assumes "set (map key_name keys) \<inter> fst ` set tbl = {}"
  shows "rename_list tbl keys = keys"
  using assms
proof (induction tbl)
  case Nil
  show ?case by simp
next
  case (Cons m ms)
  have "fst m \<notin> set (map key_name keys)" using Cons.prems by auto
  then have "find_name (fst m) (map key_name keys) = - 1"
    by (simp only: find_name_absent not_False_eq_True)
  moreover have "set (map key_name keys) \<inter> fst ` set ms = {}" using Cons.prems by auto
  ultimately show ?case using Cons.IH by simp
qed

lemma rename_list_clean:
  assumes "distinct (map key_name keys) \<or> set (map key_name keys) \<inter> fst ` set shapekeyMap = {}"
  shows "set (map key_name (rename_list shapekeyMap keys)) \<inter> fst ` set shapekeyMap = {}"
  using assms
proof
  assume "distinct (map key_name keys)"
  from rename_names_sources_gone[OF table_sources_distinct subset_refl _ this]
  show ?thesis by (simp add: rename_list_names assigned_clean)
next
  assume "set (map key_name keys) \<inter> fst ` set shapekeyMap = {}"
  then show ?thesis by (simp only: rename_list_idle)
qed

lemma visit_all_store_at:
  assumes "distinct (map key_name (store st k))
           \<or> set (map key_name (store st k)) \<inter> fst ` set shapekeyMap = {}"
  shows "store (visit_all xs st) k =
           (if Some k \<in> shape_keys_of ` set xs then rename_list shapekeyMap (store st k)
            else store st k)"
  using assms
proof (induction xs arbitrary: st)
  case Nil
  show ?case by simp
next
  case (Cons x xs)
  let ?st1 = "visit_object x st"
  show ?case
  proof (cases "shape_keys_of x = Some k")
    case True
    have s1: "store ?st1 k = rename_list shapekeyMap (store st k)"
      using True by (simp add: visit_object_store)
    have clean: "set (map key_name (store ?st1 k)) \<inter> fst ` set shapekeyMap = {}"
      unfolding s1 by (rule rename_list_clean[OF Cons.prems])
    have "store (visit_all xs ?st1) k =
            (if Some k \<in> shape_keys_of ` set xs then rename_list shapekeyMap (store ?st1 k)
             else store ?st1 k)"
      by (rule Cons.IH) (use clean in blast)
    also have "rename_list shapekeyMap (store ?st1 k) = store ?st1 k"
      by (rule rename_list_idle[OF clean])
    finally show ?thesis using True s1 by simp
  next
    case False
    have s1: "store ?st1 k = store st k"
      using False by (auto simp: visit_object_store split: option.split)
    have "store (visit_all xs ?st1) k =
            (if Some k \<in> shape_keys_of ` set xs then rename_list shapekeyMap (store ?st1 k)
             else store ?st1 k)"
      by (rule Cons.IH) (use Cons.prems s1 in simp)
    then show ?thesis using False s1 by auto
  qed
qed

lemma visit_all_store_other:
  assumes "Some k \<notin> shape_keys_of ` set xs"
  shows "store (visit_all xs st) k = store st k"
  using assms
proof (induction xs arbitrary: st)
  case Nil
  show ?case by simp
next
  case (Cons x xs)
  have "store (visit_object x st) k = store st k"
    using Cons.prems by (auto simp: visit_object_store split: option.split)
  moreover have "store (visit_all xs (visit_object x st)) k = store (visit_object x st) k"
    by (rule Cons.IH) (use Cons.prems in auto)
  ultimately show ?case by simp
qed

lemma rename_hits_clean:
  assumes "distinct (map key_name keys) \<or> set (map key_name keys) \<inter> fst ` set shapekeyMap = {}"
  shows "rename_hits shapekeyMap (map key_name (rename_list shapekeyMap keys)) = 0"
  using rename_names_no_source[OF rename_list_clean[OF assms]] by simp

lemma visit_object_count:
  "shape_keys_processed (visit_object x st) =
     (case shape_keys_of x of None \<Rightarrow> shape_keys_processed st
      | Some k \<Rightarrow> shape_keys_processed st + rename_hits shapekeyMap (map key_name (store st k)))"
  by (simp add: visit_object_case rename_loop_count split: option.split)

lemma finite_key_ids: "finite {k. Some k \<in> shape_keys_of ` set xs}"
proof -
  have "{k. Some k \<in> shape_keys_of ` set xs} = Some -` (shape_keys_of ` set xs)" by auto
  then show ?thesis by (simp add: finite_vimageI)
qed

lemma visit_all_count:
  assumes "\<forall>k. Some k \<in> shape_keys_of ` set xs \<longrightarrow>
             distinct (map key_name (store st k))
             \<or> set (map key_name (store st k)) \<inter> fst ` set shapekeyMap = {}"
  shows "shape_keys_processed (visit_all xs st) =
           shape_keys_processed st
           + (\<Sum>k \<in> {k. Some k \<in> shape_keys_of ` set xs}.
                rename_hits shapekeyMap (map key_name (store st k)))"
  using assms
proof (induction xs arbitrary: st)
  case Nil
  show ?case by simp
next
  case (Cons x xs)
  let ?K = "\<lambda>ys. {k. Some k \<in> shape_keys_of ` set ys}"
  let ?h = "\<lambda>s k. rename_hits shapekeyMap (map key_name (store s k))"
  let ?st1 = "visit_object x st"
  show ?case
  proof (cases "shape_keys_of x")
    case None
    then have st1: "?st1 = st" by (simp add: visit_object_case)
    have K: "?K (x # xs) = ?K xs" using None by force
    have "shape_keys_processed (visit_all xs st) = shape_keys_processed st + sum (?h st) (?K xs)"
      by (rule Cons.IH) (use Cons.prems in auto)
    then show ?thesis using st1 K by simp
  next
    case (Some k)
    have K: "?K (x # xs) = insert k (?K xs)" using Some by force
    have ok_k: "distinct (map key_name (store st k))
                \<or> set (map key_name (store st k)) \<inter> fst ` set shapekeyMap = {}"
      using Cons.prems Some by force
    have s1: "store ?st1 = (store st)(k := rename_list shapekeyMap (store st k))"
      using Some by (simp add: visit_object_store)
    have c1: "shape_keys_processed ?st1 = shape_keys_processed st + ?h st k"
      using Some by (simp add: visit_object_count)
    have h1_k: "?h ?st1 k = 0"
      using rename_hits_clean[OF ok_k] s1 by simp
    have h1_other: "?h ?st1 k' = ?h st k'" if "k' \<noteq> k" for k'
      using that s1 by simp
    have ok1: "\<forall>k'. Some k' \<in> shape_keys_of ` set xs \<longrightarrow>
                 distinct (map key_name (store ?st1 k'))
                 \<or> set (map key_name (store ?st1 k')) \<inter> fst ` set shapekeyMap = {}"
    proof (intro allI impI)
      fix k' assume k': "Some k' \<in> shape_keys_of ` set xs"
      show "distinct (map key_name (store ?st1 k'))
            \<or> set (map key_name (store ?st1 k')) \<inter> fst ` set shapekeyMap = {}"
      proof (cases "k' = k")
        case True
        then show ?thesis using rename_list_clean[OF ok_k] s1 by simp
      next
        case False
        then show ?thesis using Cons.prems k' s1 by auto
      qed
    qed
    have fin: "finite (?K xs)" by (rule finite_key_ids)
    have "sum (?h ?st1) (?K xs) = sum (?h ?st1) (?K xs - {k})"
      by (rule sum.mono_neutral_right) (use fin h1_k in auto)
    also have "\<dots> = sum (?h st) (?K xs - {k})"
      by (rule sum.cong) (use h1_other in auto)
    finally have sum1: "sum (?h ?st1) (?K xs) = sum (?h st) (?K xs - {k})" .
    have "shape_keys_processed (visit_all xs ?st1) =
            shape_keys_processed ?st1 + sum (?h ?st1) (?K xs)"
      by (rule Cons.IH[OF ok1])
    also have "\<dots> = shape_keys_processed st + (?h st k + sum (?h st) (?K xs - {k}))"
      using c1 sum1 by simp
    also have "?h st k + sum (?h st) (?K xs - {k}) = sum (?h st) (insert k (?K xs))"
      using fin by (simp add: sum.insert_remove)
    finally show ?thesis using K by simp
  qed
qed

lemma visit_all_store:
  assumes "\<forall>k. Some k \<in> shape_keys_of ` set xs \<longrightarrow>
             distinct (map key_name (store st k))
             \<or> set (map key_name (store st k)) \<inter> fst ` set shapekeyMap = {}"
  shows "store (visit_all xs st) =
           (\<lambda>k. if Some k \<in> shape_keys_of ` set xs then rename_list shapekeyMap (store st k)
                else store st k)"
proof
  fix k
  show "store (visit_all xs st) k =
          (if Some k \<in> shape_keys_of ` set xs then rename_list shapekeyMap (store st k)
           else store st k)"
  proof (cases "Some k \<in> shape_keys_of ` set xs")
    case True
    with assms show ?thesis by (simp add: visit_all_store_at)
  next
    case False
    then show ?thesis by (simp add: visit_all_store_other)
  qed
qed

lemma visit_all_same_set:
  assumes "\<forall>x\<in>set xs. \<forall>k. shape_keys_of x = Some k \<longrightarrow> distinct (map key_name (store st k))"
    and "set ys = set xs"
  shows "store (visit_all xs st) = store (visit_all ys st)
         \<and> shape_keys_processed (visit_all xs st) = shape_keys_processed (visit_all ys st)"
proof -
  have ok: "\<forall>k. Some k \<in> shape_keys_of ` set xs \<longrightarrow>
             distinct (map key_name (store st k))
             \<or> set (map key_name (store st k)) \<inter> fst ` set shapekeyMap = {}"
    using assms(1) by force
  have ok': "\<forall>k. Some k \<in> shape_keys_of ` set ys \<longrightarrow>
             distinct (map key_name (store st k))
             \<or> set (map key_name (store st k)) \<inter> fst ` set shapekeyMap = {}"
    using ok assms(2) by simp
  show ?thesis
    by (simp add: visit_all_store[OF ok] visit_all_store[OF ok'] visit_all_count[OF ok]
        visit_all_count[OF ok'] assms(2))
qed




lemma visit_all_idle:
  assumes "\<forall>x\<in>set xs. \<forall>k. shape_keys_of x = Some k \<longrightarrow>
             set (map key_name (store st k)) \<inter> fst ` set shapekeyMap = {}"
  shows "visit_all xs st = st"
  using assms
proof (induction xs)
  case Nil
  show ?case by simp
next
  case (Cons x xs)
  have "visit_object x st = st"
    using Cons.prems by (auto simp: visit_object_case rename_loop_idle split: option.split)
  with Cons show ?case by simp
qed

section \<open>Names stay different; the rename log; descendants\<close>

lemma key_name_set_key_name_same:
  "idx < length keys \<Longrightarrow>
   key_name (set_key_name idx v keys ! idx) = unique_name (others idx (map key_name keys)) v"
  by (simp add: set_key_name_def)

lemma set_key_name_other: "i \<noteq> idx \<Longrightarrow> set_key_name idx v keys ! i = keys ! i"
  by (simp add: set_key_name_def)

lemma distinct_update_fresh:
  assumes "distinct ns" "idx < length ns" "r \<notin> set (others idx ns)"
  shows "distinct (ns[idx := r])"
proof -
  have ns: "ns = take idx ns @ ns ! idx # drop (Suc idx) ns"
    using assms(2) by (rule id_take_nth_drop)
  have "distinct (take idx ns @ ns ! idx # drop (Suc idx) ns)"
    using assms(1) ns by simp
  then have "distinct (take idx ns @ r # drop (Suc idx) ns)"
    using assms(3) by (auto simp: others_def)
  then show ?thesis using assms(2) by (simp add: upd_conv_take_nth_drop)
qed

lemma set_key_name_distinct:
  assumes "distinct (map key_name keys)" "idx < length keys"
  shows "distinct (map key_name (set_key_name idx v keys))"
proof -
  have "distinct ((map key_name keys)[idx := unique_name (others idx (map key_name keys)) v])"
    by (rule distinct_update_fresh) (use assms unique_name_fresh in simp_all)
  then show ?thesis using assms(2) by (simp only: names_set_key_name)
qed

lemma rename_list_distinct:
  "distinct (map key_name keys) \<Longrightarrow> distinct (map key_name (rename_list tbl keys))"
proof (induction tbl arbitrary: keys)
  case Nil
  then show ?case by simp
next
  case (Cons m ms)
  show ?case
  proof (cases "find_name (fst m) (map key_name keys) = - 1")
    case True
    then show ?thesis using Cons by simp
  next
    case False
    from find_name_hit[OF False] have "nat (find_name (fst m) (map key_name keys)) < length keys"
      by simp
    from set_key_name_distinct[OF Cons.prems this]
    show ?thesis using False Cons.IH by (simp add: Let_def)
  qed
qed

lemma rename_loop_distinct:
  "distinct (map key_name (store st k')) \<Longrightarrow>
   distinct (map key_name (store (rename_loop tbl k st) k'))"
  by (cases "k' = k") (simp_all add: rename_loop_store rename_list_distinct)

lemma rename_loop_logged:
  assumes "logged st" "set tbl \<subseteq> set shapekeyMap"
  shows "logged (rename_loop tbl k st)"
  using assms
proof (induction tbl arbitrary: st)
  case Nil
  then show ?case by simp
next
  case (Cons m ms)
  have sub: "set ms \<subseteq> set shapekeyMap" and m_in: "m \<in> set shapekeyMap"
    using Cons.prems(2) by auto
  let ?ns = "map key_name (store st k)"
  show ?case
  proof (cases "find_name (fst m) ?ns = - 1")
    case True
    then show ?thesis using Cons.IH[OF Cons.prems(1) sub] by simp
  next
    case False
    let ?idx = "nat (find_name (fst m) ?ns)"
    let ?keys1 = "set_key_name ?idx (snd m) (store st k)"
    let ?st1 = "st\<lparr>store := (store st)(k := ?keys1),
                   shape_keys_processed := shape_keys_processed st + 1,
                   out := out st @ [key_renamed_line (fst m) (snd m)],
                   renames := renames st @ [(k, ?idx)]\<rparr>"
    from find_name_hit[OF False] have idx: "?idx < length (store st k)"
      "key_name (store st k ! ?idx) = fst m" by auto
    have src: "fst m \<in> fst ` set shapekeyMap" using m_in by force
    have tgt: "snd m \<in> snd ` set shapekeyMap" using m_in by force
    have new: "key_name (?keys1 ! ?idx) \<notin> fst ` set shapekeyMap"
      using idx(1) assigned_clean[OF tgt] by (simp add: key_name_set_key_name_same)
    have fresh: "(k, ?idx) \<notin> set (renames st)"
    proof
      assume "(k, ?idx) \<in> set (renames st)"
      with Cons.prems(1) have "key_name (store st k ! ?idx) \<notin> fst ` set shapekeyMap"
        unfolding logged_def by blast
      with idx(2) src show False by simp
    qed
    have "logged ?st1"
      unfolding logged_def
    proof (intro conjI)
      show "distinct (renames ?st1)" using Cons.prems(1) fresh by (simp add: logged_def)
      show "length (renames ?st1) = shape_keys_processed ?st1"
        using Cons.prems(1) by (simp add: logged_def)
      show "\<forall>(k', i) \<in> set (renames ?st1).
              i < length (store ?st1 k') \<and> key_name (store ?st1 k' ! i) \<notin> fst ` set shapekeyMap"
      proof (clarify)
        fix k' i assume "(k', i) \<in> set (renames ?st1)"
        then consider "(k', i) = (k, ?idx)" | "(k', i) \<in> set (renames st)" by auto
        then show "i < length (store ?st1 k') \<and> key_name (store ?st1 k' ! i) \<notin> fst ` set shapekeyMap"
        proof cases
          case 1
          then show ?thesis using idx(1) new by (simp add: length_set_key_name)
        next
          case 2
          then have was: "i < length (store st k')"
            "key_name (store st k' ! i) \<notin> fst ` set shapekeyMap"
            using Cons.prems(1) by (auto simp: logged_def)
          show ?thesis
          proof (cases "k' = k \<and> i = ?idx")
            case True
            then show ?thesis using idx(1) new by (simp add: length_set_key_name)
          next
            case False
            show ?thesis
            proof (cases "k' = k")
              case True
              with False have "i \<noteq> ?idx" by simp
              then show ?thesis using was True
                by (simp add: length_set_key_name set_key_name_other)
            next
              case False
              then show ?thesis using was by simp
            qed
          qed
        qed
      qed
    qed
    from Cons.IH[OF this sub] show ?thesis using False by (simp add: Let_def)
  qed
qed

lemma visit_all_logged: "logged st \<Longrightarrow> logged (visit_all xs st)"
proof (induction xs arbitrary: st)
  case Nil
  then show ?case by simp
next
  case (Cons x xs)
  have "logged (visit_object x st)"
    using Cons.prems by (auto simp: visit_object_case rename_loop_logged split: option.split)
  then show ?case using Cons.IH by simp
qed

lemma in_subtree_traverse: "in_subtree x r \<Longrightarrow> x \<in> set (traverse r)"
proof (induction rule: in_subtree.induct)
  case (self x)
  show ?case by (cases x) simp
next
  case (below c r x)
  then show ?case by (cases r) auto
qed

lemma traverse_in_subtree: "x \<in> set (traverse r) \<Longrightarrow> in_subtree x r"
proof (induction r rule: traverse.induct)
  case (1 i d cs)
  show ?case
  proof (cases "x = Object i d cs")
    case True
    then show ?thesis by (simp add: in_subtree.self)
  next
    case False
    with "1.prems" obtain c where c: "c \<in> set cs" "x \<in> set (traverse c)" by auto
    from "1.IH"[OF c] have "in_subtree x c" .
    with c(1) show ?thesis by (auto intro: in_subtree.below)
  qed
qed

lemma visit_order_iff: "x \<in> set (visit_order rs) \<longleftrightarrow> (\<exists>r\<in>set rs. in_subtree x r)"
  by (auto simp: visit_order_def dest: traverse_in_subtree intro: in_subtree_traverse)

section \<open>The steps of a run\<close>

lemma rename_shape_keys_store:
  "store (rename_shape_keys st) =
     store (visit_all (visit_order (objs st)) (st\<lparr>shape_keys_processed := 0\<rparr>))"
  by (simp add: rename_shape_keys_def Let_def scene_loop_visit_all)

lemma rename_shape_keys_count:
  "shape_keys_processed (rename_shape_keys st) =
     shape_keys_processed (visit_all (visit_order (objs st)) (st\<lparr>shape_keys_processed := 0\<rparr>))"
  by (simp add: rename_shape_keys_def Let_def scene_loop_visit_all)

lemma rename_shape_keys_frame:
  "objs (rename_shape_keys st) = objs st \<and> file_objs (rename_shape_keys st) = file_objs st
   \<and> names (rename_shape_keys st) = names st"
  by (simp add: rename_shape_keys_def Let_def scene_loop_visit_all visit_all_frame)

lemma rename_shape_keys_logged:
  assumes "renames st = []"
  shows "logged (rename_shape_keys st)"
proof -
  let ?st0 = "st\<lparr>shape_keys_processed := 0\<rparr>"
  have "logged ?st0" using assms by (simp add: logged_def)
  then have "logged (visit_all (visit_order (objs st)) ?st0)" by (rule visit_all_logged)
  then show ?thesis
    by (simp add: rename_shape_keys_def Let_def scene_loop_visit_all logged_def)
qed

lemma rename_root_absent:
  assumes "\<forall>x\<in>set (objs st). names st (obj_id x) \<noteq> ''AvatarRoot''"
  shows "rename_root st = st"
proof -
  have "''AvatarRoot'' \<notin> set (map (\<lambda>x. names st (obj_id x)) (objs st))"
    using assms by auto
  then have "find_name ''AvatarRoot'' (map (\<lambda>x. names st (obj_id x)) (objs st)) = - 1"
    by (simp only: find_name_absent not_False_eq_True)
  then show ?thesis by (simp add: rename_root_def)
qed

lemma rename_shape_keys_idle:
  assumes "\<forall>x\<in>set (visit_order (objs st)). \<forall>k. shape_keys_of x = Some k \<longrightarrow>
             set (map key_name (store st k)) \<inter> fst ` set shapekeyMap = {}"
  shows "rename_shape_keys st
         = st\<lparr>shape_keys_processed := 0, out := out st @ [processed_line 0]\<rparr>"
proof -
  let ?c = "st\<lparr>shape_keys_processed := 0\<rparr>"
  have "visit_all (visit_order (objs st)) ?c = ?c"
    by (rule visit_all_idle) (use assms in simp)
  then show ?thesis
    by (simp add: rename_shape_keys_def Let_def scene_loop_visit_all)
qed

lemma rename_root_frame:
  "objs (rename_root st) = objs st \<and> file_objs (rename_root st) = file_objs st
   \<and> store (rename_root st) = store st \<and> renames (rename_root st) = renames st
   \<and> shape_keys_processed (rename_root st) = shape_keys_processed st"
  by (simp add: rename_root_def Let_def)

lemma rename_root_present:
  assumes "distinct (map (\<lambda>x. names st (obj_id x)) (objs st))"
    and "x \<in> set (objs st)" and "names st (obj_id x) = ''AvatarRoot''"
  shows "rename_root st =
           st\<lparr>names := set_obj_name (obj_id x) ''Armature'' (file_objs st) (names st),
              out := out st @ [root_renamed_line]\<rparr>"
proof -
  let ?ns = "map (\<lambda>x. names st (obj_id x)) (objs st)"
  from assms(2) obtain j where j: "j < length (objs st)" "objs st ! j = x"
    by (auto simp: in_set_conv_nth)
  have "''AvatarRoot'' \<in> set ?ns" using assms(2,3) by force
  then have hit: "find_name ''AvatarRoot'' ?ns \<noteq> - 1" by (simp only: find_name_absent not_not)
  let ?idx = "nat (find_name ''AvatarRoot'' ?ns)"
  from find_name_hit[OF hit] have idx: "?idx < length ?ns" "?ns ! ?idx = ''AvatarRoot''" by auto
  have jn: "j < length ?ns" using j by simp
  have "?ns ! j = ''AvatarRoot''" using j assms(3) by simp
  with idx(2) have "?ns ! ?idx = ?ns ! j" by (simp only:)
  with nth_eq_iff_index_eq[OF assms(1) idx(1) jn] have "?idx = j" by blast
  then have "objs st ! ?idx = x" using j by simp
  then show ?thesis using hit by (simp add: rename_root_def Let_def)
qed

lemma assigned_armature: "unique_name used ''Armature'' \<noteq> ''AvatarRoot''"
  using unique_name_dot[of used "''Armature''"] by auto

lemma rename_root_gone:
  assumes "distinct (map (\<lambda>x. names st (obj_id x)) (objs st))" and "y \<in> set (objs st)"
  shows "names (rename_root st) (obj_id y) \<noteq> ''AvatarRoot''"
proof (cases "\<exists>x\<in>set (objs st). names st (obj_id x) = ''AvatarRoot''")
  case False
  then have "rename_root st = st" by (simp add: rename_root_absent)
  with False assms(2) show ?thesis by simp
next
  case True
  then obtain x where x: "x \<in> set (objs st)" "names st (obj_id x) = ''AvatarRoot''" by blast
  have eq: "names (rename_root st)
            = set_obj_name (obj_id x) ''Armature'' (file_objs st) (names st)"
    by (simp add: rename_root_present[OF assms(1) x])
  have inj: "inj_on (\<lambda>x. names st (obj_id x)) (set (objs st))"
    using assms(1) by (simp add: distinct_map)
  show ?thesis
  proof (cases "obj_id y = obj_id x")
    case True
    then show ?thesis by (simp add: eq set_obj_name_def assigned_armature)
  next
    case False
    then have "y \<noteq> x" by auto
    with inj x(1) assms(2) have "names st (obj_id y) \<noteq> names st (obj_id x)"
      by (auto dest: inj_onD)
    with x(2) False show ?thesis by (simp add: eq set_obj_name_def)
  qed
qed

lemma set_obj_name_distinct:
  assumes "distinct (map nm ids)"
  shows "distinct (map (set_obj_name i v ids nm) ids)"
proof -
  let ?r = "unique_name (map nm (filter (\<lambda>j. j \<noteq> i) ids)) v"
  have d: "distinct ids" and inj: "inj_on nm (set ids)"
    using assms by (simp_all add: distinct_map)
  have fresh: "?r \<noteq> nm j" if "j \<in> set ids" "j \<noteq> i" for j
  proof -
    have "nm j \<in> set (map nm (filter (\<lambda>j. j \<noteq> i) ids))" using that by simp
    with unique_name_fresh[of "map nm (filter (\<lambda>j. j \<noteq> i) ids)" v] show ?thesis by metis
  qed
  have "inj_on (nm(i := ?r)) (set ids)"
  proof (rule inj_onI)
    fix a b assume ab: "a \<in> set ids" "b \<in> set ids" "(nm(i := ?r)) a = (nm(i := ?r)) b"
    show "a = b"
    proof (cases "a = i")
      case True
      then show ?thesis using ab fresh[of b] by (cases "b = i") auto
    next
      case False
      then show ?thesis using ab fresh[of a] inj by (cases "b = i") (auto dest: inj_onD)
    qed
  qed
  with d show ?thesis by (simp add: distinct_map set_obj_name_def)
qed

lemma names_bake: "map key_name (bake f keys) = map key_name keys"
  by (simp add: bake_def)

lemma apply_transforms_frame:
  "objs (fst (apply_transforms h st)) = objs st
   \<and> file_objs (fst (apply_transforms h st)) = file_objs st
   \<and> names (fst (apply_transforms h st)) = names st
   \<and> renames (fst (apply_transforms h st)) = renames st
   \<and> shape_keys_processed (fst (apply_transforms h st)) = shape_keys_processed st
   \<and> map key_name (store (fst (apply_transforms h st)) k) = map key_name (store st k)"
  by (simp add: apply_transforms_def names_bake split: option.split sum.split)

lemma apply_transforms_raise:
  "snd (apply_transforms h st) \<noteq> None \<Longrightarrow> fst (apply_transforms h st) = st"
  by (auto simp: apply_transforms_def split: option.splits sum.splits)

lemma process_cases:
  "process h st =
     (if snd (apply_transforms h (rename_root st)) = None
      then (rename_shape_keys (fst (apply_transforms h (rename_root st))), None)
      else (rename_root st, snd (apply_transforms h (rename_root st))))"
proof (cases "apply_transforms h (rename_root st)")
  case (Pair st1 e)
  then show ?thesis
    using apply_transforms_raise[of h "rename_root st"]
    by (cases e) (simp_all add: process_def)
qed

lemma process_completed:
  assumes "snd (apply_transforms h (rename_root st)) = None"
  shows "process h st = (rename_shape_keys (fst (apply_transforms h (rename_root st))), None)"
  using assms by (simp add: process_cases)

lemma process_raised:
  assumes "snd (apply_transforms h (rename_root st)) \<noteq> None"
  shows "process h st = (rename_root st, snd (apply_transforms h (rename_root st)))"
  using assms by (auto simp: process_cases)

lemma process_frame:
  "objs (fst (process h st)) = objs st \<and> file_objs (fst (process h st)) = file_objs st
   \<and> names (fst (process h st)) = names (rename_root st)"
  by (cases "snd (apply_transforms h (rename_root st)) = None")
    (simp_all add: process_completed process_raised rename_shape_keys_frame
      apply_transforms_frame rename_root_frame)

lemma process_logged:
  assumes "renames st = []" "shape_keys_processed st = 0"
  shows "logged (fst (process h st))"
proof (cases "snd (apply_transforms h (rename_root st)) = None")
  case True
  have "renames (fst (apply_transforms h (rename_root st))) = []"
    using assms(1) by (simp add: apply_transforms_frame rename_root_frame)
  then have "logged (rename_shape_keys (fst (apply_transforms h (rename_root st))))"
    by (rule rename_shape_keys_logged)
  with process_completed[OF True] show ?thesis by simp
next
  case False
  from process_raised[OF this] have "fst (process h st) = rename_root st" by simp
  then show ?thesis using assms by (simp add: logged_def rename_root_frame)
qed

lemma process_store_clean:
  assumes "snd (process h st) = None"
    and "x \<in> set (visit_order (objs st))" and "shape_keys_of x = Some k"
    and "distinct (map key_name (store st k))"
  shows "set (map key_name (store (fst (process h st)) k)) \<inter> fst ` set shapekeyMap = {}"
proof -
  let ?b = "fst (apply_transforms h (rename_root st))"
  let ?c = "?b\<lparr>shape_keys_processed := 0\<rparr>"
  have ended: "snd (apply_transforms h (rename_root st)) = None"
    using assms(1) by (cases "snd (apply_transforms h (rename_root st)) = None")
      (auto simp: process_raised)
  have ob: "objs ?b = objs st"
    by (simp add: apply_transforms_frame rename_root_frame)
  have nb: "map key_name (store ?c k) = map key_name (store st k)"
    by (simp add: apply_transforms_frame rename_root_frame)
  have visited: "Some k \<in> shape_keys_of ` set (visit_order (objs ?b))"
    using assms(2,3) ob by force
  have d: "distinct (map key_name (store ?c k))" using assms(4) nb by simp
  have "store (fst (process h st)) k = store (visit_all (visit_order (objs ?b)) ?c) k"
    using process_completed[OF ended] by (simp add: rename_shape_keys_store)
  also have "\<dots> = rename_list shapekeyMap (store ?c k)"
    using visit_all_store_at[of ?c k "visit_order (objs ?b)"] d visited by simp
  finally have "store (fst (process h st)) k = rename_list shapekeyMap (store ?c k)" .
  moreover have "set (map key_name (rename_list shapekeyMap (store ?c k)))
                 \<inter> fst ` set shapekeyMap = {}"
    by (rule rename_list_clean) (use d in simp)
  ultimately show ?thesis by simp
qed

lemma process_settled:
  assumes "\<forall>x\<in>set (objs st). names st (obj_id x) \<noteq> ''AvatarRoot''"
    and "\<forall>x\<in>set (visit_order (objs st)). \<forall>k. shape_keys_of x = Some k \<longrightarrow>
           set (map key_name (store st k)) \<inter> fst ` set shapekeyMap = {}"
    and "shape_keys_processed st = 0"
  shows "names (fst (process h st)) = names st
         \<and> store (fst (process h st)) = store (fst (apply_transforms h st))
         \<and> shape_keys_processed (fst (process h st)) = 0
         \<and> renames (fst (process h st)) = renames st"
proof -
  have r: "rename_root st = st" by (rule rename_root_absent[OF assms(1)])
  let ?b = "fst (apply_transforms h st)"
  show ?thesis
  proof (cases "snd (apply_transforms h st) = None")
    case True
    have "\<forall>x\<in>set (visit_order (objs ?b)). \<forall>k. shape_keys_of x = Some k \<longrightarrow>
           set (map key_name (store ?b k)) \<inter> fst ` set shapekeyMap = {}"
      using assms(2) by (simp add: apply_transforms_frame)
    then have "rename_shape_keys ?b
               = ?b\<lparr>shape_keys_processed := 0, out := out ?b @ [processed_line 0]\<rparr>"
      by (rule rename_shape_keys_idle)
    moreover have "fst (process h st) = rename_shape_keys ?b"
      using process_completed[of h st] True by (simp add: r)
    ultimately have "fst (process h st)
                     = ?b\<lparr>shape_keys_processed := 0, out := out ?b @ [processed_line 0]\<rparr>"
      by (simp only:)
    then show ?thesis by (simp add: apply_transforms_frame)
  next
    case False
    then have "snd (apply_transforms h (rename_root st)) \<noteq> None" unfolding r .
    from process_raised[OF this] have "fst (process h st) = st" by (simp add: r)
    moreover have "?b = st" using False by (rule apply_transforms_raise)
    ultimately show ?thesis using assms(3) by simp
  qed
qed

lemma py_index_absent: "x \<notin> set xs \<Longrightarrow> py_index x xs = Inl ValueError"
  by (induction xs) auto

lemma py_index_present:
  "x \<in> set xs \<Longrightarrow> \<exists>i. py_index x xs = Inr i \<and> i < length xs \<and> xs ! i = x"
  by (induction xs) auto

lemma main_with_separator:
  assumes "py_index ''--'' sys_argv = Inr i"
  shows "snd (main h sys_argv) =
           (if length sys_argv \<le> i + 1 then SysExit 1
            else case import_gltf h (sys_argv ! (i + 1)) of
                   Inl e \<Rightarrow> SysExit 1
                 | Inr w \<Rightarrow>
                     (case process h (init_state w
                                [processing_line (sys_argv ! (i + 1)), imported_line]) of
                        (st, Some e) \<Rightarrow> Uncaught e
                      | (st, None) \<Rightarrow>
                          (case export_gltf h (sys_argv ! (i + 1)) (world_of st) of
                             Some e \<Rightarrow> SysExit 1
                           | None \<Rightarrow> Completed)))"
  using assms
  by (auto simp: main_def Let_def hd_drop_conv_nth split: sum.split option.split prod.split)

lemma demo_visit_order:
  "visit_order (objs demo_state) = [avatar_root, head, face, head, face, face]"
  by (simp add: demo_state_def init_state_def demo_world_def visit_order_def avatar_root_def
      head_def face_def)

lemma plain_visit_order:
  "visit_order (objs plain_state) = [avatar_root, head, face, head, face, face]"
  by (simp add: plain_state_def init_state_def plain_world_def visit_order_def avatar_root_def
      head_def face_def)

lemma demo_shape_keys [simp]:
  "shape_keys_of avatar_root = None" "shape_keys_of head = None" "shape_keys_of face = Some 0"
  "shape_keys_of rig = None"
  by (simp_all add: avatar_root_def head_def face_def rig_def)

lemma demo_names_distinct:
  "distinct (map (\<lambda>y. names demo_state (obj_id y)) (objs demo_state))"
  by (simp add: demo_state_def init_state_def demo_world_def avatar_root_def head_def face_def)

lemma face_below_root: "in_subtree face avatar_root"
proof -
  have "in_subtree face head"
    by (rule in_subtree.below[of face]) (simp_all add: head_def in_subtree.self)
  then show ?thesis
    by (rule in_subtree.below[of head, rotated]) (simp add: avatar_root_def)
qed

section \<open>The example scenes\<close>

lemmas scene_defs = init_state_def demo_state_def demo_world_def plain_state_def plain_world_def
  clash_state_def clash_world_def avatar_root_def head_def face_def rig_def

lemmas run_defs = rename_shape_keys_def rename_root_def Let_def visit_object_case shapekeyMap_def
  set_key_name_def set_obj_name_def others_def unique_name_def numbered_def pad3_small

lemma clash_pass_names:
  "map key_name (store (rename_shape_keys clash_state) 0)
   = [''Basis'', ''viseme_aa'', ''viseme_aa.001'', ''Smile'']"
  by (simp add: scene_defs run_defs)

lemma clash_root_names:
  "map (names (rename_root clash_state)) [1, 2, 3, 4]
   = [''Armature.001'', ''Head'', ''Face'', ''Armature'']"
  by (simp add: scene_defs run_defs)

lemma demo_pass_names:
  "map key_name (store (rename_shape_keys demo_state) 0) = [''Basis'', ''viseme_aa'', ''viseme_U'']"
  by (simp add: scene_defs run_defs)

lemma demo_process:
  "snd (process demo_host (init_state demo_world [])) = None"
  by (simp add: process_def apply_transforms_def demo_host_def scene_defs run_defs
      split: prod.split)

lemma demo_process_count:
  "shape_keys_processed (fst (process demo_host (init_state demo_world []))) = 2"
  by (simp add: process_def apply_transforms_def demo_host_def bake_def world_of_def scene_defs
      run_defs split: prod.split)

lemma demo_second_world:
  "map key_name
     (key_blocks (world_of (fst (process demo_host (init_state demo_world [])))) 0)
   = [''Basis'', ''viseme_aa'', ''viseme_U'']"
  by (simp add: process_def apply_transforms_def demo_host_def bake_def world_of_def scene_defs
      run_defs split: prod.split)

text \<open>A complete run on the example scene, and one that the transform step ends.\<close>

lemma demo_run:
  "main demo_host [''blender'', ''--background'', ''--python'', ''sdk_avatars.py'', ''--'', ''avatar.glb'']
   = ([processing_line ''avatar.glb'', imported_line, root_renamed_line, transforms_line,
       key_renamed_line ''aa'' ''viseme_aa'', key_renamed_line ''ou'' ''viseme_U'',
       processed_line 2, exported_line, complete_line], Completed)"
  by (simp add: main_def process_def apply_transforms_def demo_host_def bake_def world_of_def
      scene_defs run_defs numeral_2_eq_2 split: prod.split)

lemma failing_run:
  "main failing_host [''blender'', ''--background'', ''--python'', ''sdk_avatars.py'', ''--'', ''avatar.glb'']
   = ([processing_line ''avatar.glb'', imported_line, root_renamed_line],
      Uncaught (RuntimeError ''no active object''))"
  by (simp add: main_def process_def apply_transforms_def failing_host_def world_of_def
      scene_defs run_defs split: prod.split)

section \<open>The properties of the specification\<close>

text \<open>
  C1. After the rename pass, for every root object of the scene and every descendant of
  one that carries shape-key data, every shape key whose name is a source name of the
  table, and whose target name is not yet the name of a key of the same collection, has
  the target name. The names of a collection are pairwise different, as the host keeps
  them. With the target name in use the host stores a suffixed name instead.
\<close>

theorem sources_renamed:
  assumes "r \<in> set (objs st)" and "in_subtree x r" and "shape_keys_of x = Some k"
    and "distinct (map key_name (store st k))"
    and "i < length (store st k)"
    and "(key_name (store st k ! i), t) \<in> set shapekeyMap"
    and "t \<notin> set (map key_name (store st k))"
  shows "key_name (store (rename_shape_keys st) k ! i) = t"
proof -
  let ?st0 = "st\<lparr>shape_keys_processed := 0\<rparr>"
  let ?ns = "map key_name (store st k)"
  let ?S = "fst ` set shapekeyMap"
  have "x \<in> set (visit_order (objs st))"
    using assms(1,2) by (auto simp: visit_order_iff)
  then have visited: "Some k \<in> shape_keys_of ` set (visit_order (objs st))"
    using assms(3) by force
  have "store (rename_shape_keys st) k = store (visit_all (visit_order (objs st)) ?st0) k"
    by (simp only: rename_shape_keys_store)
  also have "\<dots> = rename_list shapekeyMap (store st k)"
    using visit_all_store_at[of ?st0 k "visit_order (objs st)"] assms(4) visited by simp
  finally have st: "store (rename_shape_keys st) k = rename_list shapekeyMap (store st k)" .
  have i: "i < length ?ns" "(?ns ! i, t) \<in> set shapekeyMap" using assms(5,6) by simp_all
  have first: "\<forall>j<i. ?ns ! j \<noteq> ?ns ! i"
    using assms(4) i(1) by (auto simp: distinct_conv_nth)
  have t_in: "t \<in> snd ` set shapekeyMap" using assms(6) by force
  have A: "\<forall>t\<in>snd ` set shapekeyMap. \<forall>used. unique_name used t \<notin> ?S"
    by (simp add: assigned_clean)
  have B: "\<forall>t'\<in>snd ` set shapekeyMap. t' \<noteq> t \<longrightarrow> (\<forall>used. unique_name used t' \<noteq> t)"
    using assigned_apart[OF t_in] by blast
  have "rename_names shapekeyMap ?ns ! i = t"
    by (rule rename_names_exact[OF table_sources_distinct table_targets_distinct subset_refl
          A B i first assms(7)])
  then have "map key_name (rename_list shapekeyMap (store st k)) ! i = t"
    by (simp only: rename_list_names)
  then show ?thesis using st assms(5) by (simp add: length_rename_list)
qed

theorem sources_renamed_witness:
  "avatar_root \<in> set (objs demo_state) \<and> in_subtree face avatar_root
   \<and> shape_keys_of face = Some 0
   \<and> distinct (map key_name (store demo_state 0))
   \<and> 1 < length (store demo_state 0)
   \<and> (key_name (store demo_state 0 ! 1), ''viseme_aa'') \<in> set shapekeyMap
   \<and> ''viseme_aa'' \<notin> set (map key_name (store demo_state 0))
   \<and> key_name (store (rename_shape_keys demo_state) 0 ! 1) = ''viseme_aa''"
proof -
  have h1: "avatar_root \<in> set (objs demo_state)" by (simp add: scene_defs)
  have h3: "shape_keys_of face = Some 0" by simp
  have h4: "distinct (map key_name (store demo_state 0))" by (simp add: scene_defs)
  have h5: "1 < length (store demo_state 0)" by (simp add: scene_defs)
  have h6: "(key_name (store demo_state 0 ! 1), ''viseme_aa'') \<in> set shapekeyMap"
    by (simp add: scene_defs shapekeyMap_def)
  have h7: "''viseme_aa'' \<notin> set (map key_name (store demo_state 0))" by (simp add: scene_defs)
  from sources_renamed[OF h1 face_below_root h3 h4 h5 h6 h7] h1 face_below_root h3 h4 h5 h6 h7
  show ?thesis by blast
qed

theorem target_in_use_counterexample:
  "avatar_root \<in> set (objs clash_state) \<and> in_subtree face avatar_root
   \<and> shape_keys_of face = Some 0
   \<and> distinct (map key_name (store clash_state 0))
   \<and> 2 < length (store clash_state 0)
   \<and> (key_name (store clash_state 0 ! 2), ''viseme_aa'') \<in> set shapekeyMap
   \<and> key_name (store (rename_shape_keys clash_state) 0 ! 2) = ''viseme_aa.001''
   \<and> key_name (store (rename_shape_keys clash_state) 0 ! 2) \<noteq> ''viseme_aa''"
proof -
  have h1: "avatar_root \<in> set (objs clash_state)" by (simp add: scene_defs)
  have h4: "distinct (map key_name (store clash_state 0))" by (simp add: scene_defs)
  have h5: "2 < length (store clash_state 0)" by (simp add: scene_defs)
  have h6: "(key_name (store clash_state 0 ! 2), ''viseme_aa'') \<in> set shapekeyMap"
    by (simp add: scene_defs shapekeyMap_def)
  have len: "length (store (rename_shape_keys clash_state) 0) = 4"
    using arg_cong[OF clash_pass_names, of length] by simp
  have "map key_name (store (rename_shape_keys clash_state) 0) ! 2 = ''viseme_aa.001''"
    by (simp only: clash_pass_names) simp
  then have c: "key_name (store (rename_shape_keys clash_state) 0 ! 2) = ''viseme_aa.001''"
    using len by simp
  then have "key_name (store (rename_shape_keys clash_state) 0 ! 2) \<noteq> ''viseme_aa''" by simp
  with h1 face_below_root h4 h5 h6 c show ?thesis by simp
qed

text \<open>
  C2. The rename table is a fixed list of exactly 15 pairs of strings; its first entry
  maps \<open>sil\<close> to \<open>viseme_sil\<close>, its second \<open>PP\<close> to \<open>viseme_PP\<close> and its last \<open>ou\<close> to
  \<open>viseme_U\<close>. The table is a constant: no step of the run takes or returns it.
\<close>

theorem shapekeyMap_shape:
  "length shapekeyMap = 15
   \<and> shapekeyMap ! 0 = (''sil'', ''viseme_sil'')
   \<and> shapekeyMap ! 1 = (''PP'', ''viseme_PP'')
   \<and> last shapekeyMap = (''ou'', ''viseme_U'')"
  by (simp add: shapekeyMap_def)




text \<open>
  C4. Processing the scene left by a previous completed run renames nothing: in that
  scene no shape key of a visited object has a source name and no scene object is named
  \<open>AvatarRoot\<close>; the second run counts zero renames, logs none and leaves all object
  names and all shape-key names as they were. What the second run does to the scene is
  what its transform step alone does.
\<close>

theorem second_run_renames_nothing:
  assumes "distinct (map (\<lambda>x. obj_name w (obj_id x)) (scene_objects w))"
    and "\<forall>x\<in>set (visit_order (scene_objects w)). \<forall>k. shape_keys_of x = Some k \<longrightarrow>
           distinct (map key_name (key_blocks w k))"
    and "snd (process h1 (init_state w printed1)) = None"
    and "w1 = world_of (fst (process h1 (init_state w printed1)))"
    and "st2 = fst (process h2 (init_state w1 printed2))"
  shows "(\<forall>x\<in>set (visit_order (scene_objects w1)). \<forall>k. shape_keys_of x = Some k \<longrightarrow>
            set (map key_name (key_blocks w1 k)) \<inter> fst ` set shapekeyMap = {})
         \<and> (\<forall>x\<in>set (scene_objects w1). obj_name w1 (obj_id x) \<noteq> ''AvatarRoot'')
         \<and> shape_keys_processed st2 = 0 \<and> renames st2 = []
         \<and> obj_name (world_of st2) = obj_name w1
         \<and> (\<forall>k. map key_name (key_blocks (world_of st2) k) = map key_name (key_blocks w1 k))
         \<and> world_of st2 = world_of (fst (apply_transforms h2 (init_state w1 printed2)))"
proof -
  let ?st0 = "init_state w printed1"
  let ?st1 = "fst (process h1 ?st0)"
  let ?s0 = "init_state w1 printed2"
  have w1: "scene_objects w1 = scene_objects w" "data_objects w1 = data_objects w"
    "obj_name w1 = names (rename_root ?st0)" "key_blocks w1 = store ?st1"
    by (simp_all add: assms(4) world_of_def process_frame) (simp_all add: init_state_def)
  have s0: "objs ?s0 = scene_objects w1" "names ?s0 = obj_name w1" "store ?s0 = key_blocks w1"
    "renames ?s0 = []" "file_objs ?s0 = data_objects w1" "shape_keys_processed ?s0 = 0"
    by (simp_all add: init_state_def)
  have clean: "\<forall>x\<in>set (visit_order (scene_objects w1)). \<forall>k. shape_keys_of x = Some k \<longrightarrow>
            set (map key_name (key_blocks w1 k)) \<inter> fst ` set shapekeyMap = {}"
  proof (intro ballI allI impI)
    fix x k assume x: "x \<in> set (visit_order (scene_objects w1))" "shape_keys_of x = Some k"
    have a: "x \<in> set (visit_order (objs ?st0))" using x(1) w1(1) by (simp add: init_state_def)
    have d: "distinct (map key_name (store ?st0 k))"
      using assms(2) x w1(1) by (simp add: init_state_def)
    from process_store_clean[OF assms(3) a x(2) d] show
      "set (map key_name (key_blocks w1 k)) \<inter> fst ` set shapekeyMap = {}"
      by (simp only: w1(4))
  qed
  have no_root: "\<forall>x\<in>set (scene_objects w1). obj_name w1 (obj_id x) \<noteq> ''AvatarRoot''"
  proof
    fix x assume "x \<in> set (scene_objects w1)"
    then have x: "x \<in> set (objs ?st0)" using w1(1) by (simp add: init_state_def)
    have d: "distinct (map (\<lambda>x. names ?st0 (obj_id x)) (objs ?st0))"
      using assms(1) by (simp add: init_state_def)
    from rename_root_gone[OF d x] show "obj_name w1 (obj_id x) \<noteq> ''AvatarRoot''"
      unfolding w1(3) .
  qed
  have p1: "\<forall>x\<in>set (objs ?s0). names ?s0 (obj_id x) \<noteq> ''AvatarRoot''"
    using no_root by (simp only: s0)
  have p2: "\<forall>x\<in>set (visit_order (objs ?s0)). \<forall>k. shape_keys_of x = Some k \<longrightarrow>
           set (map key_name (store ?s0 k)) \<inter> fst ` set shapekeyMap = {}"
    using clean by (simp only: s0)
  from process_settled[OF p1 p2 s0(6), of h2]
  have settled: "names st2 = obj_name w1"
    "store st2 = store (fst (apply_transforms h2 ?s0))"
    "shape_keys_processed st2 = 0" "renames st2 = []"
    by (simp_all add: assms(5) s0)
  have fr: "objs st2 = scene_objects w1" "file_objs st2 = data_objects w1"
    by (simp_all add: assms(5) process_frame s0)
  have same: "world_of st2 = world_of (fst (apply_transforms h2 ?s0))"
    using settled fr by (simp add: world_of_def apply_transforms_frame s0)
  have kn: "map key_name (key_blocks (world_of st2) k) = map key_name (key_blocks w1 k)" for k
    using apply_transforms_frame[of h2 ?s0 k] settled(2) by (simp add: world_of_def s0)
  have on: "obj_name (world_of st2) = obj_name w1"
    using settled(1) by (simp add: world_of_def)
  from clean no_root settled(3,4) on kn same show ?thesis by blast
qed

theorem second_run_renames_nothing_witness:
  "distinct (map (\<lambda>x. obj_name demo_world (obj_id x)) (scene_objects demo_world))
   \<and> visit_order (scene_objects demo_world) = [avatar_root, head, face, head, face, face]
   \<and> shape_keys_of avatar_root = None \<and> shape_keys_of head = None
   \<and> shape_keys_of face = Some 0
   \<and> distinct (map key_name (key_blocks demo_world 0))
   \<and> snd (process demo_host (init_state demo_world [])) = None
   \<and> shape_keys_processed (fst (process demo_host (init_state demo_world []))) = 2
   \<and> shape_keys_processed
        (fst (process demo_host
           (init_state (world_of (fst (process demo_host (init_state demo_world [])))) []))) = 0
   \<and> renames
        (fst (process demo_host
           (init_state (world_of (fst (process demo_host (init_state demo_world [])))) []))) = []
   \<and> map key_name (key_blocks (world_of
        (fst (process demo_host
           (init_state (world_of (fst (process demo_host (init_state demo_world [])))) [])))) 0)
       = [''Basis'', ''viseme_aa'', ''viseme_U'']"
proof -
  have h1: "distinct (map (\<lambda>x. obj_name demo_world (obj_id x)) (scene_objects demo_world))"
    by (simp add: scene_defs)
  have vo: "visit_order (scene_objects demo_world) = [avatar_root, head, face, head, face, face]"
    by (simp add: demo_world_def visit_order_def avatar_root_def head_def face_def)
  have h3: "distinct (map key_name (key_blocks demo_world 0))" by (simp add: scene_defs)
  have h2: "\<forall>x\<in>set (visit_order (scene_objects demo_world)). \<forall>k. shape_keys_of x = Some k \<longrightarrow>
          distinct (map key_name (key_blocks demo_world k))"
    using h3 by (simp add: vo)
  let ?w1 = "world_of (fst (process demo_host (init_state demo_world [])))"
  let ?st2 = "fst (process demo_host (init_state ?w1 []))"
  note r = second_run_renames_nothing[OF h1 h2 demo_process refl refl, of demo_host "[]"]
  from r have c: "shape_keys_processed ?st2 = 0" and l: "renames ?st2 = []" by blast+
  from r have "map key_name (key_blocks (world_of ?st2) 0) = map key_name (key_blocks ?w1 0)"
    by blast
  then have n: "map key_name (key_blocks (world_of ?st2) 0) = [''Basis'', ''viseme_aa'', ''viseme_U'']"
    by (simp only: demo_second_world)
  from h1 vo h3 demo_shape_keys demo_process demo_process_count c l n
  show ?thesis by blast
qed

text \<open>
  C5. The script is to exit with a non-zero status and a message when the input argument
  is missing. Started with no arguments at all, it ends with an uncaught \<open>ValueError\<close>
  and prints nothing; the usage message and \<^verbatim>\<open>sys.exit(1)\<close> are reached only when the
  separator is present.
\<close>

theorem no_arguments_uncaught:
  "main h [''blender'', ''--background'', ''--python'', ''sdk_avatars.py'']
     = ([], Uncaught ValueError)
   \<and> main h [''blender'', ''--background'', ''--python'', ''sdk_avatars.py'', ''--'']
     = ([usage_line], SysExit 1)"
  by (simp add: main_def)

text \<open>
  C6. A scene object named \<open>AvatarRoot\<close> is renamed to \<open>Armature\<close> when no object of
  the file has that name yet, all other names and all key blocks staying as they are;
  with no object named \<open>AvatarRoot\<close> the step changes nothing and prints nothing. With
  \<open>Armature\<close> in use the object gets a suffixed name.
\<close>

theorem avatar_root_renamed_or_skipped:
  "(distinct (map (\<lambda>y. names st (obj_id y)) (objs st)) \<and> x \<in> set (objs st)
      \<and> names st (obj_id x) = ''AvatarRoot''
      \<and> ''Armature'' \<notin> set (map (names st) (file_objs st))
    \<longrightarrow> names (rename_root st) (obj_id x) = ''Armature''
        \<and> (\<forall>j. j \<noteq> obj_id x \<longrightarrow> names (rename_root st) j = names st j)
        \<and> store (rename_root st) = store st)
   \<and> ((\<forall>y\<in>set (objs st). names st (obj_id y) \<noteq> ''AvatarRoot'') \<longrightarrow> rename_root st = st)"
proof (intro conjI impI)
  assume "\<forall>y\<in>set (objs st). names st (obj_id y) \<noteq> ''AvatarRoot''"
  then show "rename_root st = st" by (rule rename_root_absent)
next
  assume a: "distinct (map (\<lambda>y. names st (obj_id y)) (objs st)) \<and> x \<in> set (objs st)
      \<and> names st (obj_id x) = ''AvatarRoot''
      \<and> ''Armature'' \<notin> set (map (names st) (file_objs st))"
  then have eq: "rename_root st =
           st\<lparr>names := set_obj_name (obj_id x) ''Armature'' (file_objs st) (names st),
              out := out st @ [root_renamed_line]\<rparr>"
    by (simp add: rename_root_present)
  have "''Armature'' \<notin> set (map (names st) (filter (\<lambda>j. j \<noteq> obj_id x) (file_objs st)))"
    using a by auto
  then have u: "unique_name (map (names st) (filter (\<lambda>j. j \<noteq> obj_id x) (file_objs st)))
                  ''Armature'' = ''Armature''"
    by (rule unique_name_free)
  show "names (rename_root st) (obj_id x) = ''Armature''"
    by (simp add: eq set_obj_name_def u)
  show "\<forall>j. j \<noteq> obj_id x \<longrightarrow> names (rename_root st) j = names st j"
    by (simp add: eq set_obj_name_def)
  show "store (rename_root st) = store st" by (simp add: eq)
qed

theorem avatar_root_renamed_or_skipped_witness:
  "distinct (map (\<lambda>y. names demo_state (obj_id y)) (objs demo_state))
   \<and> avatar_root \<in> set (objs demo_state)
   \<and> names demo_state (obj_id avatar_root) = ''AvatarRoot''
   \<and> ''Armature'' \<notin> set (map (names demo_state) (file_objs demo_state))
   \<and> names (rename_root demo_state) (obj_id avatar_root) = ''Armature''
   \<and> map (\<lambda>y. names plain_state (obj_id y)) (objs plain_state) = [''Armature'', ''Head'', ''Face'']
   \<and> rename_root plain_state = plain_state"
proof -
  have h2: "avatar_root \<in> set (objs demo_state)" by (simp add: scene_defs)
  have h3: "names demo_state (obj_id avatar_root) = ''AvatarRoot''" by (simp add: scene_defs)
  have h4: "''Armature'' \<notin> set (map (names demo_state) (file_objs demo_state))"
    by (simp add: scene_defs)
  have h5: "\<forall>y\<in>set (objs plain_state). names plain_state (obj_id y) \<noteq> ''AvatarRoot''"
    by (simp add: scene_defs)
  have h6: "map (\<lambda>y. names plain_state (obj_id y)) (objs plain_state)
            = [''Armature'', ''Head'', ''Face'']"
    by (simp add: scene_defs)
  from avatar_root_renamed_or_skipped[of demo_state avatar_root]
    avatar_root_renamed_or_skipped[of plain_state avatar_root]
    demo_names_distinct h2 h3 h4 h5 h6
  show ?thesis by blast
qed

theorem armature_in_use_counterexample:
  "distinct (map (\<lambda>y. names clash_state (obj_id y)) (objs clash_state))
   \<and> avatar_root \<in> set (objs clash_state)
   \<and> names clash_state (obj_id avatar_root) = ''AvatarRoot''
   \<and> names (rename_root clash_state) (obj_id avatar_root) = ''Armature.001''
   \<and> names (rename_root clash_state) (obj_id avatar_root) \<noteq> ''Armature''"
proof -
  have h1: "distinct (map (\<lambda>y. names clash_state (obj_id y)) (objs clash_state))"
    by (simp add: scene_defs)
  have h2: "avatar_root \<in> set (objs clash_state)" by (simp add: scene_defs)
  have h3: "names clash_state (obj_id avatar_root) = ''AvatarRoot''" by (simp add: scene_defs)
  have "map (names (rename_root clash_state)) [1, 2, 3, 4] ! 0 = ''Armature.001''"
    by (simp only: clash_root_names) simp
  then have c: "names (rename_root clash_state) (obj_id avatar_root) = ''Armature.001''"
    by (simp add: avatar_root_def)
  then have "names (rename_root clash_state) (obj_id avatar_root) \<noteq> ''Armature''" by simp
  with h1 h2 h3 c show ?thesis by simp
qed

text \<open>
  C7. If no shape key of any visited object has a source name, the rename pass leaves
  every key block unchanged, the counter is zero and the line printed reports zero.
\<close>

theorem no_match_no_change:
  assumes "\<forall>x\<in>set (visit_order (objs st)). \<forall>k. shape_keys_of x = Some k \<longrightarrow>
             set (map key_name (store st k)) \<inter> fst ` set shapekeyMap = {}"
  shows "store (rename_shape_keys st) = store st
         \<and> shape_keys_processed (rename_shape_keys st) = 0
         \<and> out (rename_shape_keys st) = out st @ [processed_line 0]"
proof -
  let ?st0 = "st\<lparr>shape_keys_processed := 0\<rparr>"
  have "visit_all (visit_order (objs st)) ?st0 = ?st0"
    by (rule visit_all_idle) (use assms in simp)
  then show ?thesis
    by (simp add: rename_shape_keys_def Let_def scene_loop_visit_all)
qed

theorem no_match_no_change_witness:
  "visit_order (objs plain_state) = [avatar_root, head, face, head, face, face]
   \<and> shape_keys_of avatar_root = None \<and> shape_keys_of head = None
   \<and> shape_keys_of face = Some 0
   \<and> set (map key_name (store plain_state 0)) \<inter> fst ` set shapekeyMap = {}
   \<and> store (rename_shape_keys plain_state) = store plain_state
   \<and> shape_keys_processed (rename_shape_keys plain_state) = 0
   \<and> out (rename_shape_keys plain_state) = out plain_state @ [processed_line 0]"
proof -
  have h0: "set (map key_name (store plain_state 0)) \<inter> fst ` set shapekeyMap = {}"
    by (simp add: scene_defs shapekeyMap_def)
  have h: "\<forall>x\<in>set (visit_order (objs plain_state)). \<forall>k. shape_keys_of x = Some k \<longrightarrow>
       set (map key_name (store plain_state k)) \<inter> fst ` set shapekeyMap = {}"
    using h0 by (simp add: plain_visit_order)
  from no_match_no_change[OF h] h0 plain_visit_order demo_shape_keys show ?thesis by blast
qed

text \<open>
  C8. Every target of the table begins with \<open>viseme_\<close> and no source does, so no
  target is a source; in a run no shape key is renamed twice: the log of the renames
  done at line 71 has no repetition, and it has one entry per counted rename.
\<close>

theorem each_key_renamed_at_most_once:
  "(\<forall>(s, t) \<in> set shapekeyMap. take 7 t = ''viseme_'' \<and> take 7 s \<noteq> ''viseme_'')
   \<and> set (map snd shapekeyMap) \<inter> set (map fst shapekeyMap) = {}
   \<and> distinct (renames (fst (process h (init_state w printed))))
   \<and> length (renames (fst (process h (init_state w printed))))
       = shape_keys_processed (fst (process h (init_state w printed)))"
proof -
  have pre: "(\<forall>(s, t) \<in> set shapekeyMap. take 7 t = ''viseme_'' \<and> take 7 s \<noteq> ''viseme_'')"
    by (simp add: shapekeyMap_def)
  have "logged (fst (process h (init_state w printed)))"
    by (rule process_logged) (simp_all add: init_state_def)
  then have "distinct (renames (fst (process h (init_state w printed))))"
    and "length (renames (fst (process h (init_state w printed))))
       = shape_keys_processed (fst (process h (init_state w printed)))"
    by (simp_all add: logged_def)
  with pre table_disjoint show ?thesis by blast
qed

theorem each_key_renamed_at_most_once_witness:
  "take 7 ''viseme_aa'' = ''viseme_'' \<and> take 7 ''aa'' \<noteq> ''viseme_''
   \<and> distinct (renames (fst (process demo_host (init_state demo_world []))))
   \<and> length (renames (fst (process demo_host (init_state demo_world [])))) = 2"
proof -
  have m: "(''aa'', ''viseme_aa'') \<in> set shapekeyMap" by (simp add: shapekeyMap_def)
  from each_key_renamed_at_most_once[of demo_host demo_world "[]"] m demo_process_count
  show ?thesis by auto
qed

text \<open>
  C9. The nested loops visit an object once for itself and once below each of its
  ancestors listed in the scene. They end with the same key blocks and the same counter
  as a pass over any list that holds each visited object exactly once.
\<close>

theorem repeated_visits_as_single_visits:
  assumes "\<forall>x\<in>set (visit_order (objs st)). \<forall>k. shape_keys_of x = Some k \<longrightarrow>
             distinct (map key_name (store st k))"
    and "distinct once" and "set once = set (visit_order (objs st))"
  shows "store (rename_shape_keys st) = store (rename_each_once once st)
         \<and> shape_keys_processed (rename_shape_keys st)
             = shape_keys_processed (rename_each_once once st)"
proof -
  let ?st0 = "st\<lparr>shape_keys_processed := 0\<rparr>"
  have "\<forall>x\<in>set (visit_order (objs st)). \<forall>k. shape_keys_of x = Some k \<longrightarrow>
          distinct (map key_name (store ?st0 k))"
    using assms(1) by simp
  from visit_all_same_set[OF this assms(3)]
  show ?thesis
    by (simp add: rename_shape_keys_def rename_each_once_def Let_def scene_loop_visit_all)
qed

theorem repeated_visits_as_single_visits_witness:
  "shape_keys_of avatar_root = None \<and> shape_keys_of head = None \<and> shape_keys_of face = Some 0
   \<and> distinct (map key_name (store demo_state 0))
   \<and> distinct [avatar_root, head, face]
   \<and> set [avatar_root, head, face] = set (visit_order (objs demo_state))
   \<and> visit_order (objs demo_state) = [avatar_root, head, face, head, face, face]
   \<and> store (rename_shape_keys demo_state)
       = store (rename_each_once [avatar_root, head, face] demo_state)
   \<and> shape_keys_processed (rename_shape_keys demo_state)
       = shape_keys_processed (rename_each_once [avatar_root, head, face] demo_state)"
proof -
  have h0: "distinct (map key_name (store demo_state 0))" by (simp add: scene_defs)
  have h1: "\<forall>x\<in>set (visit_order (objs demo_state)). \<forall>k. shape_keys_of x = Some k \<longrightarrow>
       distinct (map key_name (store demo_state k))"
    using h0 by (simp add: demo_visit_order)
  have h2: "distinct [avatar_root, head, face]" by (simp add: avatar_root_def head_def face_def)
  have h3: "set [avatar_root, head, face] = set (visit_order (objs demo_state))"
    by (auto simp: demo_visit_order)
  from repeated_visits_as_single_visits[OF h1 h2 h3] h0 h2 h3 demo_visit_order demo_shape_keys
  show ?thesis by blast
qed

text \<open>
  C10. For every argument vector without the separator \<open>--\<close> the script ends with an
  uncaught \<open>ValueError\<close> at line 7, having printed nothing and not having called
  \<^verbatim>\<open>sys.exit\<close>.
\<close>

theorem no_separator_raises:
  assumes "''--'' \<notin> set sys_argv"
  shows "main h sys_argv = ([], Uncaught ValueError)"
  using py_index_absent[OF assms] by (simp add: main_def)

theorem no_separator_raises_witness:
  "''--'' \<notin> set [''blender'', ''-b'', ''-P'', ''sdk_avatars.py'', ''avatar.glb'']
   \<and> main demo_host [''blender'', ''-b'', ''-P'', ''sdk_avatars.py'', ''avatar.glb'']
       = ([], Uncaught ValueError)"
proof -
  have a: "''--'' \<notin> set [''blender'', ''-b'', ''-P'', ''sdk_avatars.py'', ''avatar.glb'']"
    by simp
  from no_separator_raises[OF a, of demo_host] a show ?thesis by blast
qed

end
